theory Spec2Isabelle
  imports Complex_Main "HOL-Library.Sublist" "HOL-Library.Multiset" "HOL-Library.Word"
begin

section \<open>Paths: the parts of Python's posixpath that hasher.py calls\<close>

text \<open>
  hasher.py calls \<^verbatim>\<open>os.path.abspath\<close>, \<^verbatim>\<open>os.path.join\<close> and \<^verbatim>\<open>str.startswith\<close>;
  entropy.py calls \<^verbatim>\<open>os.path.basename\<close>. They are library code (CPython's posixpath
  module), embedded here function by function. A Python \<^verbatim>\<open>str\<close> is a \<^typ>\<open>string\<close>;
  \<^verbatim>\<open>a.startswith(b)\<close> is \<^term>\<open>prefix b a\<close>. The current working directory, which
  \<^verbatim>\<open>os.getcwd()\<close> reads from the process, is the explicit argument \<open>cwd\<close>.
\<close>

text \<open>\<^verbatim>\<open>path.split('/')\<close>: the pieces between separators, empty pieces kept.\<close>

fun split_sep :: "string \<Rightarrow> string list" where
  "split_sep [] = [[]]"
| "split_sep (c # cs) =
     (if c = CHR ''/'' then [] # split_sep cs
      else (c # hd (split_sep cs)) # tl (split_sep cs))"

text \<open>\<^verbatim>\<open>'/'.join(comps)\<close>.\<close>

fun join_sep :: "string list \<Rightarrow> string" where
  "join_sep [] = []"
| "join_sep [c] = c"
| "join_sep (c # d # cs) = c @ ''/'' @ join_sep (d # cs)"

text \<open>
  One round of the loop of \<^verbatim>\<open>posixpath.normpath\<close> over the components:
  \<^verbatim>\<open>
    if comp in (empty, dot): continue
    if (comp != dotdot or (not initial_slashes and not new_comps) or
         (new_comps and new_comps[-1] == dotdot)):
        new_comps.append(comp)
    elif new_comps:
        new_comps.pop()
  \<close>
\<close>

definition norm_step :: "nat \<Rightarrow> string list \<Rightarrow> string \<Rightarrow> string list" where
  "norm_step initial_slashes new_comps cmp =
     (if cmp = [] \<or> cmp = ''.'' then new_comps
      else if cmp \<noteq> ''..'' \<or> (initial_slashes = 0 \<and> new_comps = [])
              \<or> (new_comps \<noteq> [] \<and> last new_comps = ''..'')
           then new_comps @ [cmp]
      else if new_comps \<noteq> [] then butlast new_comps
      else new_comps)"

text \<open>
  POSIX keeps one or two leading slashes and reads three or more as one:
  \<^verbatim>\<open>initial_slashes\<close> is 0, 1 or 2.
\<close>

definition initial_slashes_of :: "string \<Rightarrow> nat" where
  "initial_slashes_of path =
     (if prefix ''/'' path
      then (if prefix ''//'' path \<and> \<not> prefix ''///'' path then 2 else 1)
      else 0)"

definition norm_comps :: "string \<Rightarrow> string list" where
  "norm_comps path = foldl (norm_step (initial_slashes_of path)) [] (split_sep path)"

definition normpath :: "string \<Rightarrow> string" where
  "normpath path =
     (if path = [] then ''.''
      else let p = replicate (initial_slashes_of path) CHR ''/'' @ join_sep (norm_comps path)
           in if p = [] then ''.'' else p)"

definition isabs :: "string \<Rightarrow> bool" where
  "isabs s = prefix ''/'' s"

text \<open>\<^verbatim>\<open>os.path.join(a, b)\<close> with two arguments.\<close>

definition join :: "string \<Rightarrow> string \<Rightarrow> string" where
  "join a b =
     (if prefix ''/'' b then b
      else if a = [] \<or> last a = CHR ''/'' then a @ b
      else a @ ''/'' @ b)"

definition abspath :: "string \<Rightarrow> string \<Rightarrow> string" where
  "abspath cwd path = normpath (if isabs path then path else join cwd path)"

text \<open>\<^verbatim>\<open>os.path.basename(p)\<close>: what follows the last separator.\<close>

definition basename :: "string \<Rightarrow> string" where
  "basename p = last (split_sep p)"


section \<open>MountFilter: \<^verbatim>\<open>path_on_skipped_mount\<close>\<close>

text \<open>
  \<^verbatim>\<open>
  def path_on_skipped_mount(path, skip_mounts):
      ap = os.path.abspath(path)
      for m in skip_mounts:
          if ap == m or ap.startswith(m + os.sep):
              return True
      return False
  \<close>
  The list \<open>skip_mounts\<close> is what \<^verbatim>\<open>load_mounts_to_skip\<close> read from the live mount
  table; here it is an argument.
\<close>

fun on_some_mount :: "string \<Rightarrow> string list \<Rightarrow> bool" where
  "on_some_mount ap [] = False"
| "on_some_mount ap (m # ms) =
     (if ap = m \<or> prefix (m @ ''/'') ap then True else on_some_mount ap ms)"

definition path_on_skipped_mount :: "string \<Rightarrow> string \<Rightarrow> string list \<Rightarrow> bool" where
  "path_on_skipped_mount cwd path skip_mounts =
     (let ap = abspath cwd path in on_some_mount ap skip_mounts)"

text \<open>
  The specification's wording of the same test, kept apart from the code's: an absolute
  path is excluded when it equals an excluded mountpoint, or the mountpoint is a proper
  prefix of it that ends at a path separator (the mountpoint itself ends with the
  separator, as the filesystem root does, or the separator follows it in the path).
\<close>

definition strictly_inside :: "string \<Rightarrow> string \<Rightarrow> bool" where
  "strictly_inside m ap =
     (strict_prefix m ap \<and>
      ((m \<noteq> [] \<and> last m = CHR ''/'') \<or> ap ! length m = CHR ''/''))"

definition is_excluded_spec :: "string \<Rightarrow> string list \<Rightarrow> bool" where
  "is_excluded_spec ap excluded_mounts =
     list_ex (\<lambda>m. ap = m \<or> strictly_inside m ap) excluded_mounts"



section \<open>The digest: \<^verbatim>\<open>hashlib.blake2b(digest_size=64)\<close>\<close>

text \<open>
  \<^verbatim>\<open>blake2b_file\<close> feeds the file to \<^verbatim>\<open>hashlib.blake2b\<close> and returns its
  \<^verbatim>\<open>hexdigest()\<close>. The hash is library code; it is embedded from RFC 7693 (BLAKE2b,
  unkeyed, sequential mode): 64-bit words, twelve rounds of the mixing function over a
  sixteen-word state, a 128-bit byte counter, little-endian input and output.
\<close>

unbundle bit_operations_syntax

type_synonym byte = "8 word"
type_synonym u64 = "64 word"

text \<open>The initialisation vector and the message schedule of RFC 7693.\<close>

definition blake2b_iv :: "u64 list" where
  "blake2b_iv =
     [0x6a09e667f3bcc908, 0xbb67ae8584caa73b, 0x3c6ef372fe94f82b, 0xa54ff53a5f1d36f1,
      0x510e527fade682d1, 0x9b05688c2b3e6c1f, 0x1f83d9abfb41bd6b, 0x5be0cd19137e2179]"

definition blake2b_sigma :: "nat list list" where
  "blake2b_sigma =
     [[0, 1, 2, 3, 4, 5, 6, 7, 8, 9, 10, 11, 12, 13, 14, 15],
      [14, 10, 4, 8, 9, 15, 13, 6, 1, 12, 0, 2, 11, 7, 5, 3],
      [11, 8, 12, 0, 5, 2, 15, 13, 10, 14, 3, 6, 7, 1, 9, 4],
      [7, 9, 3, 1, 13, 12, 11, 14, 2, 6, 5, 10, 4, 0, 15, 8],
      [9, 0, 5, 7, 2, 4, 10, 15, 14, 1, 11, 12, 6, 8, 3, 13],
      [2, 12, 6, 10, 0, 11, 8, 3, 4, 13, 7, 5, 15, 14, 1, 9],
      [12, 5, 1, 15, 14, 13, 4, 10, 0, 7, 6, 3, 9, 2, 8, 11],
      [13, 11, 7, 14, 12, 1, 3, 9, 5, 0, 15, 4, 8, 6, 2, 10],
      [6, 15, 14, 9, 11, 3, 0, 8, 12, 2, 13, 7, 1, 4, 10, 5],
      [10, 2, 8, 4, 7, 6, 1, 5, 15, 11, 9, 14, 3, 12, 13, 0]]"

text \<open>The mixing function G on the working vector \<open>v\<close>, indices \<open>a b c d\<close>.\<close>

definition mixG :: "u64 list \<Rightarrow> nat \<Rightarrow> nat \<Rightarrow> nat \<Rightarrow> nat \<Rightarrow> u64 \<Rightarrow> u64 \<Rightarrow> u64 list" where
  "mixG v0 a b c d x y =
     (let v1 = v0[a := v0 ! a + v0 ! b + x];
          v2 = v1[d := word_rotr 32 (v1 ! d XOR v1 ! a)];
          v3 = v2[c := v2 ! c + v2 ! d];
          v4 = v3[b := word_rotr 24 (v3 ! b XOR v3 ! c)];
          v5 = v4[a := v4 ! a + v4 ! b + y];
          v6 = v5[d := word_rotr 16 (v5 ! d XOR v5 ! a)];
          v7 = v6[c := v6 ! c + v6 ! d]
      in v7[b := word_rotr 63 (v7 ! b XOR v7 ! c)])"

definition blake2b_round :: "u64 list \<Rightarrow> u64 list \<Rightarrow> nat \<Rightarrow> u64 list" where
  "blake2b_round m v0 i =
     (let s = blake2b_sigma ! (i mod 10);
          v1 = mixG v0 0 4 8 12 (m ! (s ! 0)) (m ! (s ! 1));
          v2 = mixG v1 1 5 9 13 (m ! (s ! 2)) (m ! (s ! 3));
          v3 = mixG v2 2 6 10 14 (m ! (s ! 4)) (m ! (s ! 5));
          v4 = mixG v3 3 7 11 15 (m ! (s ! 6)) (m ! (s ! 7));
          v5 = mixG v4 0 5 10 15 (m ! (s ! 8)) (m ! (s ! 9));
          v6 = mixG v5 1 6 11 12 (m ! (s ! 10)) (m ! (s ! 11));
          v7 = mixG v6 2 7 8 13 (m ! (s ! 12)) (m ! (s ! 13))
      in mixG v7 3 4 9 14 (m ! (s ! 14)) (m ! (s ! 15)))"

text \<open>The compression function F: \<open>t\<close> counts the bytes absorbed so far.\<close>

definition compress :: "u64 list \<Rightarrow> u64 list \<Rightarrow> 128 word \<Rightarrow> bool \<Rightarrow> u64 list" where
  "compress h m t final =
     (let v0 = h @ blake2b_iv;
          v1 = v0[12 := v0 ! 12 XOR ucast t];
          v2 = v1[13 := v1 ! 13 XOR ucast (drop_bit 64 t)];
          v3 = (if final then v2[14 := NOT (v2 ! 14)] else v2);
          v4 = foldl (blake2b_round m) v3 [0..<12]
      in map (\<lambda>i. h ! i XOR v4 ! i XOR v4 ! (i + 8)) [0..<8])"

definition le_word :: "byte list \<Rightarrow> u64" where
  "le_word bs = foldr (\<lambda>b acc. ucast b OR push_bit 8 acc) bs 0"

definition le_bytes :: "u64 \<Rightarrow> byte list" where
  "le_bytes w = map (\<lambda>i. ucast (drop_bit (8 * i) w)) [0..<8]"

definition block_words :: "byte list \<Rightarrow> u64 list" where
  "block_words block = map (\<lambda>i. le_word (take 8 (drop (8 * i) block))) [0..<16]"

text \<open>All blocks but the last are compressed unflagged; the last, zero-padded, with the final flag.\<close>

fun absorb :: "u64 list \<Rightarrow> 128 word \<Rightarrow> byte list \<Rightarrow> u64 list" where
  "absorb h t d =
     (if 128 < length d
      then absorb (compress h (block_words (take 128 d)) (t + 128) False) (t + 128) (drop 128 d)
      else compress h (block_words (d @ replicate (128 - length d) 0)) (t + of_nat (length d)) True)"

declare absorb.simps [simp del]

definition blake2b :: "nat \<Rightarrow> byte list \<Rightarrow> byte list" where
  "blake2b digest_size data =
     (let h0 = blake2b_iv[0 := blake2b_iv ! 0 XOR 0x01010000 XOR word_of_nat digest_size]
      in take digest_size (concat (map le_bytes (absorb h0 0 data))))"

text \<open>\<^verbatim>\<open>hexdigest()\<close>: two lower-case hexadecimal digits per byte.\<close>

definition hexdigits :: string where
  "hexdigits = ''0123456789abcdef''"

definition hex_digit :: "nat \<Rightarrow> char" where
  "hex_digit n = hexdigits ! (n mod 16)"

definition hex_byte :: "byte \<Rightarrow> string" where
  "hex_byte b = [hex_digit (unat b div 16), hex_digit (unat b mod 16)]"

definition hexdigest :: "byte list \<Rightarrow> string" where
  "hexdigest bs = concat (map hex_byte bs)"


section \<open>The operating system as hasher.py sees it\<close>

text \<open>
  Every call that can raise returns a sum: \<open>Inl\<close> the exception, \<open>Inr\<close> the value.
\<close>

datatype exn = OSError | IndexError | ValueError | ZeroDivisionError | UnicodeEncodeError

text \<open>The file type in \<^verbatim>\<open>st_mode\<close>; \<^verbatim>\<open>stat.S_ISREG\<close> holds of \<open>S_IFREG\<close> only.\<close>

datatype ftype = S_IFREG | S_IFDIR | S_IFLNK | S_IFOTHER

text \<open>
  An open file is the list of what successive \<^verbatim>\<open>f.read(CHUNK)\<close> calls do: raise, or
  return bytes. Past the end of the list \<^verbatim>\<open>read\<close> returns \<^verbatim>\<open>b''\<close> (end of file).
\<close>

type_synonym reads = "(exn + byte list) list"

text \<open>
  A \<^verbatim>\<open>Future\<close> of the pool. Python compares futures by identity: \<open>fid\<close> is that
  identity (the number of submissions before this one), \<open>fpath\<close> is the attribute
  \<^verbatim>\<open>_path\<close> that \<^verbatim>\<open>hash_all\<close> sets.
\<close>

record future =
  fid :: nat
  fpath :: string

text \<open>
  What the process reads from its environment: the working directory, the processor
  count, the result of \<^verbatim>\<open>load_mounts_to_skip()\<close>, what
  \<^verbatim>\<open>os.walk(root, followlinks=False)\<close> yields, \<^verbatim>\<open>os.lstat\<close>, opening a file for
  reading, and the order in which \<^verbatim>\<open>concurrent.futures.as_completed\<close> hands back the
  futures it was given.
\<close>

record sys =
  getcwd :: string
  cpu_count :: "nat option"
  mounts_to_skip :: "string list"
  os_walk :: "string \<Rightarrow> (string \<times> string list \<times> string list) list"
  os_lstat :: "string \<Rightarrow> exn + ftype"
  open_rb :: "string \<Rightarrow> exn + reads"
  as_completed :: "future list \<Rightarrow> future list"

text \<open>
  \<^verbatim>\<open>as_completed\<close> yields every future of a list of distinct futures exactly once, in
  an order of its own. (The workers of this model always return, so every future
  completes.)
\<close>

definition completes_all :: "sys \<Rightarrow> bool" where
  "completes_all s = (\<forall>fs. distinct fs \<longrightarrow> mset (as_completed s fs) = mset fs)"


section \<open>FileProbe and DigestWorker\<close>

text \<open>
  \<^verbatim>\<open>teeprint\<close> and \<^verbatim>\<open>progress_print\<close> write to the debug log and to standard output
  and change nothing else; the embedding leaves both streams out. The definitions of
  this section and the next give what each function returns when no exception leaves
  it. The exceptions that do leave them (of \<^verbatim>\<open>teeprint\<close>, of \<^verbatim>\<open>os.lstat\<close> other than
  OSError, and of \<^verbatim>\<open>fut.result()\<close>) are the subject of the section on calls that
  raise, which gives every function a second definition, with the suffix \<open>_call\<close>,
  that returns the exception or this value.
\<close>

text \<open>
  \<^verbatim>\<open>
  def is_regular_file(path):
      try:
          st = os.lstat(path)
          return stat.S_ISREG(st.st_mode)
      except OSError:
          return False
  \<close>
\<close>

definition is_regular_file :: "sys \<Rightarrow> string \<Rightarrow> bool" where
  "is_regular_file s path =
     (case os_lstat s path of Inl e \<Rightarrow> False | Inr st_mode \<Rightarrow> st_mode = S_IFREG)"

definition check_hash :: "string \<Rightarrow> bool \<times> string" where
  "check_hash digest = (False, ''DUMMY_REASON'')"

text \<open>
  The loop \<^verbatim>\<open>for b in iter(lambda: f.read(CHUNK), b''): h.update(b)\<close>. The hash object
  \<open>h\<close> is the bytes it has absorbed: by hashlib's contract the digest after several
  updates is the digest of their concatenation.
\<close>

fun read_chunks :: "reads \<Rightarrow> byte list \<Rightarrow> exn + byte list" where
  "read_chunks [] h = Inr h"
| "read_chunks (Inl e # rest) h = Inl e"
| "read_chunks (Inr b # rest) h = (if b = [] then Inr h else read_chunks rest (h @ b))"

text \<open>The body of the \<^verbatim>\<open>try\<close> block of \<^verbatim>\<open>blake2b_file\<close>.\<close>

definition blake2b_file_try :: "sys \<Rightarrow> string \<Rightarrow> exn + string" where
  "blake2b_file_try s path =
     (case open_rb s path of
        Inl e \<Rightarrow> Inl e
      | Inr f \<Rightarrow>
          (case read_chunks f [] of
             Inl e \<Rightarrow> Inl e
           | Inr h \<Rightarrow> Inr (hexdigest (blake2b 64 h))))"

text \<open>\<^verbatim>\<open>except Exception\<close>: log and \<^verbatim>\<open>return None\<close>.\<close>

definition blake2b_file :: "sys \<Rightarrow> string \<Rightarrow> string option" where
  "blake2b_file s path =
     (case blake2b_file_try s path of Inl e \<Rightarrow> None | Inr digest \<Rightarrow> Some digest)"

definition hash_one :: "sys \<Rightarrow> string \<times> string list \<Rightarrow> string \<times> string option" where
  "hash_one s args =
     (let (path, skip_mounts) = args
      in if path_on_skipped_mount (getcwd s) path skip_mounts then (path, None)
         else if \<not> is_regular_file s path then (path, None)
         else (path, blake2b_file s path))"


section \<open>SubmissionScheduler and ResultSink: \<^verbatim>\<open>hash_all\<close>\<close>

definition SUBMIT_BATCH :: nat where
  "SUBMIT_BATCH = 5000"

text \<open>
  \<^verbatim>\<open>heartbeat\<close>, the progress lines and \<^verbatim>\<open>out.flush()\<close> print or flush and change
  no variable that the run reads again (\<open>last_heartbeat\<close> only times the printing);
  they are left out. The output file is taken to open for appending and to accept
  every write, and no worker process is taken to die: a future's \<^verbatim>\<open>result()\<close> is
  what \<^verbatim>\<open>hash_one\<close> returns, or the exception that left it (see \<open>drain_one_call\<close>).
\<close>

text \<open>
  The variables of \<^verbatim>\<open>hash_all\<close> that its closures share. \<open>out\<close> is the list of
  strings written to the output file by this run, in order. \<open>done\<close> is a keyword of
  Isabelle, so the counter is \<open>done_n\<close>. \<open>drained\<close> is a history variable that the
  source does not have: the futures whose \<^verbatim>\<open>result()\<close> the drain has read, in order.
\<close>

record run =
  submitted :: nat
  done_n :: nat
  errors :: nat
  futures :: "future list"
  out :: "string list"
  drained :: "future list"

text \<open>Python's truth value of \<open>digest\<close>: \<^verbatim>\<open>None\<close> and the empty string are false.\<close>

definition truthy :: "string option \<Rightarrow> bool" where
  "truthy digest = (case digest of None \<Rightarrow> False | Some d \<Rightarrow> d \<noteq> [])"

text \<open>The record line \<^verbatim>\<open>f"{digest} {'TRUE' if boolean else 'FALSE'} {reason}\n"\<close>.\<close>

definition record_line :: "string \<Rightarrow> string" where
  "record_line digest =
     (let (boolean, reason) = check_hash digest
      in digest @ '' '' @ (if boolean then ''TRUE'' else ''FALSE'') @ '' '' @ reason
           @ [CHR 0x0A])"

text \<open>
  One round of the loop of \<^verbatim>\<open>drain\<close>, up to \<^verbatim>\<open>count += 1\<close>:
  \<^verbatim>\<open>futures.remove(fut)\<close> (a future that is not in the list raises ValueError, which
  is passed over, as \<^const>\<open>remove1\<close> does), \<^verbatim>\<open>fut.result()\<close>, the record or the
  error count, \<^verbatim>\<open>done += 1\<close>. The future's result is what the worker returned:
  \<^verbatim>\<open>hash_one((fpath, skip_mounts))\<close>.
\<close>

definition drain_one :: "sys \<Rightarrow> string list \<Rightarrow> run \<Rightarrow> future \<Rightarrow> run" where
  "drain_one s skip_mounts st fut =
     (let st1 = st\<lparr>futures := remove1 fut (futures st), drained := drained st @ [fut]\<rparr>;
          (path, digest) = hash_one s (fpath fut, skip_mounts);
          st2 = (if truthy digest
                 then st1\<lparr>out := out st1 @ [record_line (the digest)]\<rparr>
                 else st1\<lparr>errors := errors st1 + 1\<rparr>)
      in st2\<lparr>done_n := done_n st2 + 1\<rparr>)"

text \<open>
  The loop over \<^verbatim>\<open>as_completed(snapshot)\<close> with its
  \<^verbatim>\<open>if n is not None and count >= n: break\<close>.
\<close>

fun drain_loop :: "sys \<Rightarrow> string list \<Rightarrow> nat option \<Rightarrow> nat \<Rightarrow> run \<Rightarrow> future list \<Rightarrow> run" where
  "drain_loop s skip_mounts n cnt st [] = st"
| "drain_loop s skip_mounts n cnt st (fut # rest) =
     (let st' = drain_one s skip_mounts st fut;
          cnt' = cnt + 1
      in if (case n of None \<Rightarrow> False | Some k \<Rightarrow> cnt' \<ge> k) then st'
         else drain_loop s skip_mounts n cnt' st' rest)"

definition drain :: "sys \<Rightarrow> string list \<Rightarrow> nat option \<Rightarrow> run \<Rightarrow> run" where
  "drain s skip_mounts n st =
     (let snapshot = (case n of None \<Rightarrow> futures st | Some k \<Rightarrow> take k (futures st))
      in drain_loop s skip_mounts n 0 st (as_completed s snapshot))"

text \<open>
  The body of the inner loop of \<^verbatim>\<open>hash_all\<close> for one file path: submit, append,
  count, and after every \<open>SUBMIT_BATCH\<close> submissions \<^verbatim>\<open>drain(n=SUBMIT_BATCH // 2)\<close>.
  \<^verbatim>\<open>pool.submit\<close> queues the task and returns at once, whatever the pool size.
\<close>

definition submit_one :: "sys \<Rightarrow> string list \<Rightarrow> run \<Rightarrow> string \<Rightarrow> run" where
  "submit_one s skip_mounts st path =
     (let fut = \<lparr>fid = submitted st, fpath = path\<rparr>;
          st1 = st\<lparr>futures := futures st @ [fut], submitted := submitted st + 1\<rparr>
      in if submitted st1 mod SUBMIT_BATCH = 0
         then drain s skip_mounts (Some (SUBMIT_BATCH div 2)) st1
         else st1)"

text \<open>The inner loop, over the file names of one directory that \<^verbatim>\<open>os.walk\<close> yields.\<close>

definition submit_dir ::
  "sys \<Rightarrow> string list \<Rightarrow> run \<Rightarrow> string \<times> string list \<times> string list \<Rightarrow> run" where
  "submit_dir s skip_mounts st entry =
     (let (dirpath, dirnames, filenames) = entry
      in foldl (\<lambda>st name. submit_one s skip_mounts st (join dirpath name)) st filenames)"

definition run0 :: run where
  "run0 = \<lparr>submitted = 0, done_n = 0, errors = 0, futures = [], out = [], drained = []\<rparr>"

text \<open>The two nested loops: the state when \<^verbatim>\<open>submission complete\<close> is printed.\<close>

definition submit_all :: "sys \<Rightarrow> string \<Rightarrow> run" where
  "submit_all s rootdir = foldl (submit_dir s (mounts_to_skip s)) run0 (os_walk s rootdir)"

text \<open>\<^verbatim>\<open>workers = max(4, (os.cpu_count() or 4))\<close> when no pool size is given.\<close>

definition pool_size :: "sys \<Rightarrow> nat option \<Rightarrow> nat" where
  "pool_size s workers =
     (case workers of
        Some w \<Rightarrow> w
      | None \<Rightarrow> max 4 (case cpu_count s of None \<Rightarrow> 4 | Some c \<Rightarrow> if c = 0 then 4 else c))"

text \<open>
  \<^verbatim>\<open>hash_all(root, out_file, workers)\<close> (\<open>root\<close> names a function of the reals
  in HOL, so the argument is \<open>rootdir\<close>): the state at \<^verbatim>\<open>[DONE]\<close>, whose summary
  line prints \<open>submitted\<close>, \<open>done - errors\<close> and \<open>errors\<close>.
  \<^verbatim>\<open>ProcessPoolExecutor(max_workers=0)\<close> raises ValueError before anything is
  submitted.
\<close>

definition hash_all :: "sys \<Rightarrow> string \<Rightarrow> nat option \<Rightarrow> exn + run" where
  "hash_all s rootdir workers =
     (if pool_size s workers = 0 then Inl ValueError
      else Inr (drain s (mounts_to_skip s) None (submit_all s rootdir)))"

text \<open>The file paths that the two loops submit, in order.\<close>

definition discovered :: "(string \<times> string list \<times> string list) list \<Rightarrow> string list" where
  "discovered w = concat (map (\<lambda>(dirpath, dirnames, filenames). map (join dirpath) filenames) w)"

text \<open>The futures that \<^verbatim>\<open>pool.submit\<close> returns for these paths, in order.\<close>

definition futures_of :: "string list \<Rightarrow> future list" where
  "futures_of paths = map (\<lambda>i. \<lparr>fid = i, fpath = paths ! i\<rparr>) [0..<length paths]"


section \<open>A directory tree and what the system calls do on it\<close>

text \<open>
  A regular file carries what opening and reading it does. A symbolic link carries
  whether following it ends at a directory, which is what \<^verbatim>\<open>entry.is_dir()\<close> asks in
  \<^verbatim>\<open>os.walk\<close>. \<open>DirErr\<close> is a directory that cannot be listed; \<open>Special\<close> is a device,
  socket or FIFO. The entries of a directory are in \<^verbatim>\<open>os.scandir\<close> order.
\<close>

datatype node =
    Reg "exn + reads"
  | Lnk bool
  | Dir "(string \<times> node) list"
  | DirErr
  | Special

fun is_dir :: "node \<Rightarrow> bool" where
  "is_dir (Dir es) = True"
| "is_dir DirErr = True"
| "is_dir (Lnk to_dir) = to_dir"
| "is_dir n = False"

fun islink :: "node \<Rightarrow> bool" where
  "islink (Lnk to_dir) = True"
| "islink n = False"

fun ftype_of :: "node \<Rightarrow> ftype" where
  "ftype_of (Reg r) = S_IFREG"
| "ftype_of (Lnk to_dir) = S_IFLNK"
| "ftype_of (Dir es) = S_IFDIR"
| "ftype_of DirErr = S_IFDIR"
| "ftype_of Special = S_IFOTHER"

text \<open>
  \<^verbatim>\<open>os.walk(top, topdown=True, onerror=None, followlinks=False)\<close>: a directory that
  cannot be scanned yields nothing; otherwise the triple of the directory, the names
  whose \<^verbatim>\<open>is_dir()\<close> holds and the other names, then the walk of every name among
  the first that is not a symbolic link.
\<close>

fun walk :: "string \<Rightarrow> node \<Rightarrow> (string \<times> string list \<times> string list) list"
  and walk_dirs :: "string \<Rightarrow> (string \<times> node) list \<Rightarrow> (string \<times> string list \<times> string list) list"
  where
  "walk dirpath (Dir es) =
     (dirpath, map fst (filter (\<lambda>e. is_dir (snd e)) es),
           map fst (filter (\<lambda>e. \<not> is_dir (snd e)) es)) # walk_dirs dirpath es"
| "walk dirpath (Reg r) = []"
| "walk dirpath (Lnk to_dir) = []"
| "walk dirpath DirErr = []"
| "walk dirpath Special = []"
| "walk_dirs dirpath [] = []"
| "walk_dirs dirpath (e # es) =
     (if is_dir (snd e) \<and> \<not> islink (snd e) then walk (join dirpath (fst e)) (snd e) else [])
       @ walk_dirs dirpath es"

text \<open>Every path below \<open>dirpath\<close> with its node, as \<^verbatim>\<open>os.path.join\<close> spells it.\<close>

fun listing :: "string \<Rightarrow> node \<Rightarrow> (string \<times> node) list"
  and listing_entries :: "string \<Rightarrow> (string \<times> node) list \<Rightarrow> (string \<times> node) list"
  where
  "listing dirpath (Dir es) = listing_entries dirpath es"
| "listing dirpath (Reg r) = []"
| "listing dirpath (Lnk to_dir) = []"
| "listing dirpath DirErr = []"
| "listing dirpath Special = []"
| "listing_entries dirpath [] = []"
| "listing_entries dirpath (e # es) =
     (join dirpath (fst e), snd e) # listing (join dirpath (fst e)) (snd e) @ listing_entries dirpath es"

text \<open>
  The system whose files are the tree \<open>t\<close> at \<open>rootdir\<close>. \<^verbatim>\<open>lstat\<close> of a path that is
  not in the tree raises; so does opening anything but a regular file (the worker
  never does: it asks \<^verbatim>\<open>lstat\<close> first).
\<close>

definition tree_sys ::
  "string \<Rightarrow> string list \<Rightarrow> string \<Rightarrow> node \<Rightarrow> (future list \<Rightarrow> future list) \<Rightarrow> sys" where
  "tree_sys cwd skip_mounts rootdir t order =
     \<lparr>getcwd = cwd, cpu_count = None, mounts_to_skip = skip_mounts,
      os_walk = (\<lambda>dirpath. if dirpath = rootdir then walk rootdir t else []),
      os_lstat = (\<lambda>p. case map_of (listing rootdir t) p of
                         None \<Rightarrow> Inl OSError | Some n \<Rightarrow> Inr (ftype_of n)),
      open_rb = (\<lambda>p. case map_of (listing rootdir t) p of
                        Some (Reg r) \<Rightarrow> r | _ \<Rightarrow> Inl OSError),
      as_completed = order\<rparr>"

text \<open>The bytes of an ASCII string, for file contents written as text.\<close>

definition bytes_of :: "string \<Rightarrow> byte list" where
  "bytes_of txt = map of_char txt"


section \<open>What a drained future contributes\<close>

text \<open>
  The digest in the result of a future, and the lines that draining it writes. Both are
  read off \<^const>\<open>drain_one\<close>; they serve to state what a run has written.
\<close>

definition fut_digest :: "sys \<Rightarrow> string list \<Rightarrow> future \<Rightarrow> string option" where
  "fut_digest s skip_mounts fut = snd (hash_one s (fpath fut, skip_mounts))"

definition fut_lines :: "sys \<Rightarrow> string list \<Rightarrow> future \<Rightarrow> string list" where
  "fut_lines s skip_mounts fut =
     (if truthy (fut_digest s skip_mounts fut)
      then [record_line (the (fut_digest s skip_mounts fut))] else [])"

text \<open>
  The state of the run in terms of its history, after the files \<open>paths\<close> have been
  submitted: the futures in flight are the submitted ones but the first \<open>done_n\<close>, which
  are the drained ones in some order; the counters and the output follow the history.
\<close>

definition accounted :: "sys \<Rightarrow> string list \<Rightarrow> string list \<Rightarrow> run \<Rightarrow> bool" where
  "accounted s skip_mounts paths st =
     (submitted st = length paths \<and>
      done_n st = length (drained st) \<and>
      done_n st \<le> length paths \<and>
      futures st = drop (done_n st) (futures_of paths) \<and>
      mset (drained st) = mset (take (done_n st) (futures_of paths)) \<and>
      errors st = length (filter (\<lambda>f. \<not> truthy (fut_digest s skip_mounts f)) (drained st)) \<and>
      out st = concat (map (fut_lines s skip_mounts) (drained st)))"

text \<open>The same lines for a path: they depend on the path of the future only.\<close>

definition path_lines :: "sys \<Rightarrow> string list \<Rightarrow> string \<Rightarrow> string list" where
  "path_lines s skip_mounts path =
     (let digest = snd (hash_one s (path, skip_mounts))
      in if truthy digest then [record_line (the digest)] else [])"

section \<open>Calls that raise\<close>

text \<open>
  A path is the byte string of the file system; Python holds it as a \<^verbatim>\<open>str\<close> in which
  every byte that is not part of well-formed UTF-8 is a lone surrogate
  (\<^verbatim>\<open>surrogateescape\<close>). Such a \<^verbatim>\<open>str\<close> cannot be encoded as UTF-8 again, so it can
  be written to the debug log, which is opened with \<^verbatim>\<open>encoding='utf-8'\<close>, exactly when
  the bytes are well-formed UTF-8 (the byte ranges of the Unicode standard, table 3-7).
\<close>

definition cont_byte :: "char \<Rightarrow> bool" where
  "cont_byte c = (0x80 \<le> (of_char c :: nat) \<and> (of_char c :: nat) \<le> 0xBF)"

fun utf8_valid :: "string \<Rightarrow> bool" where
  "utf8_valid [] = True"
| "utf8_valid [c] = ((of_char c :: nat) < 0x80)"
| "utf8_valid [c, c1] =
     ((of_char c :: nat) < 0x80 \<and> (of_char c1 :: nat) < 0x80
      \<or> 0xC2 \<le> (of_char c :: nat) \<and> (of_char c :: nat) \<le> 0xDF \<and> cont_byte c1)"
| "utf8_valid [c, c1, c2] =
     (if (of_char c :: nat) < 0x80 then utf8_valid [c1, c2]
      else if 0xC2 \<le> (of_char c :: nat) \<and> (of_char c :: nat) \<le> 0xDF
      then cont_byte c1 \<and> utf8_valid [c2]
      else 0xE0 \<le> (of_char c :: nat) \<and> (of_char c :: nat) \<le> 0xEF
           \<and> cont_byte c1 \<and> cont_byte c2
           \<and> (if (of_char c :: nat) = 0xE0 then 0xA0 \<le> (of_char c1 :: nat) else True)
           \<and> (if (of_char c :: nat) = 0xED then (of_char c1 :: nat) \<le> 0x9F else True))"
| "utf8_valid (c # c1 # c2 # c3 # cs) =
     (if (of_char c :: nat) < 0x80 then utf8_valid (c1 # c2 # c3 # cs)
      else if 0xC2 \<le> (of_char c :: nat) \<and> (of_char c :: nat) \<le> 0xDF
      then cont_byte c1 \<and> utf8_valid (c2 # c3 # cs)
      else if 0xE0 \<le> (of_char c :: nat) \<and> (of_char c :: nat) \<le> 0xEF
      then cont_byte c1 \<and> cont_byte c2
           \<and> (if (of_char c :: nat) = 0xE0 then 0xA0 \<le> (of_char c1 :: nat) else True)
           \<and> (if (of_char c :: nat) = 0xED then (of_char c1 :: nat) \<le> 0x9F else True)
           \<and> utf8_valid (c3 # cs)
      else 0xF0 \<le> (of_char c :: nat) \<and> (of_char c :: nat) \<le> 0xF4
           \<and> cont_byte c1 \<and> cont_byte c2 \<and> cont_byte c3
           \<and> (if (of_char c :: nat) = 0xF0 then 0x90 \<le> (of_char c1 :: nat) else True)
           \<and> (if (of_char c :: nat) = 0xF4 then (of_char c1 :: nat) \<le> 0x8F else True)
           \<and> utf8_valid cs)"

text \<open>
  \<^verbatim>\<open>teeprint\<close> prints one line to the debug log. The argument is the list of the
  strings that the line interpolates (paths); the rest of the line is ASCII. The write
  raises UnicodeEncodeError when one of them cannot be encoded.
\<close>

definition teeprint :: "string list \<Rightarrow> exn + unit" where
  "teeprint interpolated =
     (if list_all utf8_valid interpolated then Inr () else Inl UnicodeEncodeError)"

text \<open>
  \<^verbatim>\<open>is_regular_file\<close> as a call: \<^verbatim>\<open>except OSError\<close> catches OSError and nothing
  else, so any other exception of \<^verbatim>\<open>os.lstat\<close> (ValueError for a path with an embedded
  null character) leaves the function.
\<close>

definition is_regular_file_call :: "sys \<Rightarrow> string \<Rightarrow> exn + bool" where
  "is_regular_file_call s path =
     (case os_lstat s path of
        Inl e \<Rightarrow> (if e = OSError then Inr False else Inl e)
      | Inr st_mode \<Rightarrow> Inr (st_mode = S_IFREG))"

text \<open>
  \<^verbatim>\<open>blake2b_file\<close> as a call: the \<^verbatim>\<open>OPENING\<close> line is printed before the \<^verbatim>\<open>try\<close>;
  the \<^verbatim>\<open>DONE\<close> line is the last statement of its body; the handler prints the
  \<^verbatim>\<open>ERROR\<close> line and the traceback and returns \<^verbatim>\<open>None\<close>.
\<close>

definition blake2b_file_call :: "sys \<Rightarrow> string \<Rightarrow> exn + string option" where
  "blake2b_file_call s path =
     (case teeprint [path] of
        Inl e \<Rightarrow> Inl e
      | Inr u \<Rightarrow>
          (case (case blake2b_file_try s path of
                   Inl e \<Rightarrow> Inl e
                 | Inr digest \<Rightarrow>
                     (case teeprint [path] of Inl e \<Rightarrow> Inl e | Inr u \<Rightarrow> Inr digest)) of
             Inr digest \<Rightarrow> Inr (Some digest)
           | Inl caught \<Rightarrow>
               (case teeprint [path] of Inl e \<Rightarrow> Inl e | Inr u \<Rightarrow> Inr None)))"

text \<open>
  \<^verbatim>\<open>hash_one\<close> as a call: the \<^verbatim>\<open>START\<close> line is printed first, outside any
  \<^verbatim>\<open>try\<close>; each of the two skips prints its line before it returns.
\<close>

definition hash_one_call :: "sys \<Rightarrow> string \<times> string list \<Rightarrow> exn + string \<times> string option" where
  "hash_one_call s args =
     (let (path, skip_mounts) = args
      in case teeprint [path] of
           Inl e \<Rightarrow> Inl e
         | Inr u \<Rightarrow>
             if path_on_skipped_mount (getcwd s) path skip_mounts
             then (case teeprint [path] of Inl e \<Rightarrow> Inl e | Inr u \<Rightarrow> Inr (path, None))
             else (case is_regular_file_call s path of
                     Inl e \<Rightarrow> Inl e
                   | Inr regular \<Rightarrow>
                       if \<not> regular
                       then (case teeprint [path] of
                               Inl e \<Rightarrow> Inl e | Inr u \<Rightarrow> Inr (path, None))
                       else (case blake2b_file_call s path of
                               Inl e \<Rightarrow> Inl e
                             | Inr digest \<Rightarrow> Inr (path, digest))))"

text \<open>
  One round of the loop of \<^verbatim>\<open>drain\<close> as a call: \<^verbatim>\<open>fut.result()\<close> stands in no
  \<^verbatim>\<open>try\<close> and raises again what left the worker; when the worker returned, the round
  is \<^const>\<open>drain_one\<close>.
\<close>

definition drain_one_call :: "sys \<Rightarrow> string list \<Rightarrow> run \<Rightarrow> future \<Rightarrow> exn + run" where
  "drain_one_call s skip_mounts st fut =
     (case hash_one_call s (fpath fut, skip_mounts) of
        Inl e \<Rightarrow> Inl e
      | Inr result \<Rightarrow> Inr (drain_one s skip_mounts st fut))"

fun drain_loop_call ::
  "sys \<Rightarrow> string list \<Rightarrow> nat option \<Rightarrow> nat \<Rightarrow> run \<Rightarrow> future list \<Rightarrow> exn + run" where
  "drain_loop_call s skip_mounts n cnt st [] = Inr st"
| "drain_loop_call s skip_mounts n cnt st (fut # rest) =
     (case drain_one_call s skip_mounts st fut of
        Inl e \<Rightarrow> Inl e
      | Inr st' \<Rightarrow>
          (let cnt' = cnt + 1
           in if (case n of None \<Rightarrow> False | Some k \<Rightarrow> cnt' \<ge> k) then Inr st'
              else drain_loop_call s skip_mounts n cnt' st' rest))"

definition drain_call :: "sys \<Rightarrow> string list \<Rightarrow> nat option \<Rightarrow> run \<Rightarrow> exn + run" where
  "drain_call s skip_mounts n st =
     (let snapshot = (case n of None \<Rightarrow> futures st | Some k \<Rightarrow> take k (futures st))
      in drain_loop_call s skip_mounts n 0 st (as_completed s snapshot))"

definition submit_one_call :: "sys \<Rightarrow> string list \<Rightarrow> run \<Rightarrow> string \<Rightarrow> exn + run" where
  "submit_one_call s skip_mounts st path =
     (let fut = \<lparr>fid = submitted st, fpath = path\<rparr>;
          st1 = st\<lparr>futures := futures st @ [fut], submitted := submitted st + 1\<rparr>
      in if submitted st1 mod SUBMIT_BATCH = 0
         then drain_call s skip_mounts (Some (SUBMIT_BATCH div 2)) st1
         else Inr st1)"

text \<open>A \<^verbatim>\<open>for\<close> loop whose body can raise: the first exception ends it.\<close>

fun foldl_call :: "('b \<Rightarrow> 'a \<Rightarrow> exn + 'b) \<Rightarrow> 'b \<Rightarrow> 'a list \<Rightarrow> exn + 'b" where
  "foldl_call body st [] = Inr st"
| "foldl_call body st (x # xs) =
     (case body st x of Inl e \<Rightarrow> Inl e | Inr st' \<Rightarrow> foldl_call body st' xs)"

text \<open>
  The body of the outer loop as a call: the \<^verbatim>\<open>[SCAN] dir\<close> line with the directory
  path, then the inner loop.
\<close>

definition submit_dir_call ::
  "sys \<Rightarrow> string list \<Rightarrow> run \<Rightarrow> string \<times> string list \<times> string list \<Rightarrow> exn + run" where
  "submit_dir_call s skip_mounts st entry =
     (let (dirpath, dirnames, filenames) = entry
      in case teeprint [dirpath] of
           Inl e \<Rightarrow> Inl e
         | Inr u \<Rightarrow>
             foldl_call (\<lambda>st name. submit_one_call s skip_mounts st (join dirpath name))
               st filenames)"

definition submit_all_call :: "sys \<Rightarrow> string \<Rightarrow> exn + run" where
  "submit_all_call s rootdir =
     foldl_call (submit_dir_call s (mounts_to_skip s)) run0 (os_walk s rootdir)"

text \<open>
  \<^verbatim>\<open>hash_all\<close> as a call: the \<^verbatim>\<open>[START]\<close> line with the root, the \<^verbatim>\<open>[SKIP]\<close> line
  with the mountpoints when there are any, the pool, the scan and the final drain. An
  exception leaves \<^verbatim>\<open>hash_all\<close> at once, whatever is still in flight.
\<close>

definition hash_all_call :: "sys \<Rightarrow> string \<Rightarrow> nat option \<Rightarrow> exn + run" where
  "hash_all_call s rootdir workers =
     (case teeprint [rootdir] of
        Inl e \<Rightarrow> Inl e
      | Inr u \<Rightarrow>
          (case (if mounts_to_skip s \<noteq> [] then teeprint (mounts_to_skip s) else Inr ()) of
             Inl e \<Rightarrow> Inl e
           | Inr u \<Rightarrow>
               if pool_size s workers = 0 then Inl ValueError
               else (case submit_all_call s rootdir of
                       Inl e \<Rightarrow> Inl e
                     | Inr st \<Rightarrow> drain_call s (mounts_to_skip s) None st)))"

text \<open>
  The paths for which the worker returns: the name can be logged, and \<^verbatim>\<open>os.lstat\<close>,
  where it is called, raises OSError or nothing.
\<close>

definition worker_returns :: "sys \<Rightarrow> string list \<Rightarrow> string \<Rightarrow> bool" where
  "worker_returns s skip_mounts path =
     (utf8_valid path \<and>
      (path_on_skipped_mount (getcwd s) path skip_mounts
       \<or> (case os_lstat s path of Inl e \<Rightarrow> e = OSError | Inr st_mode \<Rightarrow> True)))"

text \<open>
  The runs in which nothing raises: the root, the mountpoints and the directories of
  the walk can be logged, and the worker returns for every discovered path.
\<close>

definition nothing_raises :: "sys \<Rightarrow> string \<Rightarrow> bool" where
  "nothing_raises s rootdir =
     (utf8_valid rootdir \<and> list_all utf8_valid (mounts_to_skip s)
      \<and> list_all (\<lambda>entry. utf8_valid (fst entry)) (os_walk s rootdir)
      \<and> list_all (worker_returns s (mounts_to_skip s)) (discovered (os_walk s rootdir)))"

section \<open>Concrete systems\<close>

text \<open>
  The end-to-end scenario of the specification: under the scan root, regular files
  \<open>a.txt\<close> and \<open>b.txt\<close> holding \<open>hello\<close>, a symbolic link \<open>link\<close> to \<open>a.txt\<close> (so
  following it does not end at a directory), and a directory \<open>sub\<close> with a regular
  file \<open>c.txt\<close> holding \<open>world\<close>. Each file is read in one chunk. The scan root is
  \<open>/data\<close>, the working directory \<open>/\<close>, and \<open>/proc\<close> and \<open>/sys\<close> are the mounts to skip.
\<close>

definition scenario_tree :: node where
  "scenario_tree =
     Dir [(''a.txt'', Reg (Inr [Inr (bytes_of ''hello'')])),
          (''b.txt'', Reg (Inr [Inr (bytes_of ''hello'')])),
          (''link'', Lnk False),
          (''sub'', Dir [(''c.txt'', Reg (Inr [Inr (bytes_of ''world'')]))])]"

definition scenario_sys :: "(future list \<Rightarrow> future list) \<Rightarrow> sys" where
  "scenario_sys order = tree_sys ''/'' [''/proc'', ''/sys''] ''/data'' scenario_tree order"





text \<open>
  A system with one regular file \<open>/data/x\<close> whose second \<^verbatim>\<open>read\<close> fails, after two
  bytes have been read.
\<close>

definition failing_read_sys :: sys where
  "failing_read_sys =
     tree_sys ''/'' [''/proc''] ''/data''
       (Dir [(''x'', Reg (Inr [Inr (bytes_of ''ab''), Inl OSError]))])
       (\<lambda>fs. fs)"

text \<open>
  A system with one regular file in \<open>/data\<close> whose name is the single byte \<open>0xFF\<close>,
  which is not well-formed UTF-8.
\<close>

definition bad_name_sys :: sys where
  "bad_name_sys =
     tree_sys ''/'' [''/proc''] ''/data''
       (Dir [([CHR 0xFF], Reg (Inr [Inr (bytes_of ''x'')]))])
       (\<lambda>fs. fs)"

section \<open>entropy.py: \<^verbatim>\<open>print_entropy\<close>\<close>

text \<open>
  What \<^verbatim>\<open>print_entropy\<close> prints, by the line's form and the values it formats. Python's
  floats are taken as real numbers.
\<close>

datatype printed =
    Usage string
  | CannotRead string exn
  | EmptyFile string
  | Entropy string real nat

text \<open>\<^verbatim>\<open>math.log2\<close> raises ValueError outside its domain.\<close>

definition math_log2 :: "real \<Rightarrow> exn + real" where
  "math_log2 x = (if x \<le> 0 then Inl ValueError else Inr (log 2 x))"

text \<open>
  \<^verbatim>\<open>collections.Counter(data).values()\<close>: the number of occurrences of every byte
  value of \<open>data\<close>, in the order of first occurrence.
\<close>

definition counter_values :: "byte list \<Rightarrow> nat list" where
  "counter_values data = map (count_list data) (rev (remdups (rev data)))"

text \<open>
  The loop
  \<^verbatim>\<open>
    for count in counts.values():
        p = count / length
        ent -= p * math.log2(p)
  \<close>
  with the logarithm as a parameter \<open>lg\<close>; \<open>len\<close> is the source's \<open>length\<close>. Division
  by zero raises ZeroDivisionError.
\<close>

fun entropy_loop :: "(real \<Rightarrow> exn + real) \<Rightarrow> nat \<Rightarrow> real \<Rightarrow> nat list \<Rightarrow> exn + real" where
  "entropy_loop lg len ent [] = Inr ent"
| "entropy_loop lg len ent (c # cs) =
     (if len = 0 then Inl ZeroDivisionError
      else (case lg (real c / real len) of
              Inl e \<Rightarrow> Inl e
            | Inr l \<Rightarrow> entropy_loop lg len (ent - (real c / real len) * l) cs))"

text \<open>
  Standard output, as far as \<^verbatim>\<open>print\<close> depends on it: which strings its encoder can
  encode (the encoding and the error handler are those of the environment, not of the
  script), and the exception that writing to the stream raises, if it raises one.
\<close>

record stdout =
  encodes :: "string \<Rightarrow> bool"
  write_error :: "exn option"

text \<open>
  The strings that a line interpolates: the name of the script in the usage line, the
  path in the others. The rest of every line is ASCII text, digits, and the text of the
  exception, in which Python escapes what cannot be printed.
\<close>

fun interpolated :: "printed \<Rightarrow> string list" where
  "interpolated (Usage name) = [name]"
| "interpolated (CannotRead path e) = [path]"
| "interpolated (EmptyFile path) = [path]"
| "interpolated (Entropy path ent len) = [path]"

text \<open>
  \<^verbatim>\<open>print(line)\<close>: the line is encoded, which raises UnicodeEncodeError when the
  encoder cannot encode an interpolated string, and then written. None of the four
  calls of \<^verbatim>\<open>print\<close> in \<^verbatim>\<open>print_entropy\<close> stands in a \<^verbatim>\<open>try\<close>. The result is the line
  printed.
\<close>

definition py_print :: "stdout \<Rightarrow> printed \<Rightarrow> exn + printed" where
  "py_print sout line =
     (if \<not> list_all (encodes sout) (interpolated line) then Inl UnicodeEncodeError
      else (case write_error sout of Some e \<Rightarrow> Inl e | None \<Rightarrow> Inr line))"

text \<open>
  \<^verbatim>\<open>print_entropy\<close> with the logarithm as a parameter. \<open>argv\<close> is \<^verbatim>\<open>sys.argv\<close>;
  \<open>read_file\<close> is opening the file and reading all of it, which raises or returns the
  bytes, and \<^verbatim>\<open>except Exception\<close> catches whatever it raises. \<^verbatim>\<open>sys.argv[0]\<close> of an
  empty list raises IndexError.
\<close>

definition print_entropy_with ::
  "(real \<Rightarrow> exn + real) \<Rightarrow> stdout \<Rightarrow> string list \<Rightarrow> (string \<Rightarrow> exn + byte list)
     \<Rightarrow> exn + printed" where
  "print_entropy_with lg sout argv read_file =
     (if length argv < 2
      then (case argv of
              [] \<Rightarrow> Inl IndexError
            | a0 # rest \<Rightarrow> py_print sout (Usage (basename a0)))
      else let path = argv ! 1
           in case read_file path of
                Inl e \<Rightarrow> py_print sout (CannotRead path e)
              | Inr data \<Rightarrow>
                  if data = [] then py_print sout (EmptyFile path)
                  else (case entropy_loop lg (length data) 0 (counter_values data) of
                          Inl e \<Rightarrow> Inl e
                        | Inr ent \<Rightarrow> py_print sout (Entropy path ent (length data))))"

definition print_entropy ::
  "stdout \<Rightarrow> string list \<Rightarrow> (string \<Rightarrow> exn + byte list) \<Rightarrow> exn + printed" where
  "print_entropy sout argv read_file = print_entropy_with math_log2 sout argv read_file"

text \<open>
  A standard output that encodes UTF-8 with the error handler \<^verbatim>\<open>strict\<close>, as Python
  opens it in a UTF-8 locale, and whose writes succeed; a file that cannot be opened;
  a file that holds the two bytes \<^verbatim>\<open>AB\<close>.
\<close>

definition utf8_stdout :: stdout where
  "utf8_stdout = \<lparr>encodes = utf8_valid, write_error = None\<rparr>"

definition missing_file :: "string \<Rightarrow> exn + byte list" where
  "missing_file path = Inl OSError"

definition file_AB :: "string \<Rightarrow> exn + byte list" where
  "file_AB path = Inr [0x41, 0x42]"

text \<open>
  The Shannon entropy of the byte frequencies of \<open>data\<close>, in bits per byte, as the
  textbook defines it.
\<close>

definition shannon :: "byte list \<Rightarrow> real" where
  "shannon data =
     - (\<Sum>b \<in> set data. (real (count_list data b) / real (length data))
                          * log 2 (real (count_list data b) / real (length data)))"
section \<open>Facts about the path functions\<close>

lemma split_sep_nonempty: "split_sep xs \<noteq> []"
  by (cases xs) auto

lemma split_sep_append:
  "split_sep (a @ CHR ''/'' # b) = split_sep a @ split_sep b"
proof (induction a)
  case Nil
  show ?case by simp
next
  case (Cons c a)
  have ne: "split_sep a \<noteq> []" by (rule split_sep_nonempty)
  show ?case
  proof (cases "c = CHR ''/''")
    case True
    with Cons show ?thesis by simp
  next
    case False
    with Cons ne show ?thesis by simp
  qed
qed

lemma norm_step_plain:
  "cmp \<noteq> ''..'' \<Longrightarrow>
   norm_step i nc cmp = (if cmp = [] \<or> cmp = ''.'' then nc else nc @ [cmp])"
  by (simp add: norm_step_def)

lemma foldl_norm_step_plain:
  "''..'' \<notin> set cs \<Longrightarrow>
   foldl (norm_step i) nc cs = nc @ filter (\<lambda>c. c \<noteq> [] \<and> c \<noteq> ''.'') cs"
proof (induction cs arbitrary: nc)
  case Nil
  show ?case by simp
next
  case (Cons c cs)
  from Cons.prems have c: "c \<noteq> ''..''" and cs: "''..'' \<notin> set cs" by auto
  show ?case
    using Cons.IH [OF cs, of "norm_step i nc c"] by (simp add: norm_step_plain [OF c])
qed

lemma join_sep_append:
  "xs \<noteq> [] \<Longrightarrow> ys \<noteq> [] \<Longrightarrow> join_sep (xs @ ys) = join_sep xs @ ''/'' @ join_sep ys"
proof (induction xs rule: join_sep.induct)
  case 1
  then show ?case by simp
next
  case (2 c)
  then show ?case by (cases ys) simp_all
next
  case (3 c d cs)
  then show ?case by simp
qed

lemma initial_slashes_of_cases:
  "initial_slashes_of p = 0 \<or> initial_slashes_of p = 1 \<or> initial_slashes_of p = 2"
  by (simp add: initial_slashes_of_def)

lemma initial_slashes_of_pos: "prefix ''/'' p \<Longrightarrow> 0 < initial_slashes_of p"
  by (simp add: initial_slashes_of_def)

lemma initial_slashes_of_descend:
  assumes "p \<noteq> ''/''" and "p \<noteq> ''//''" and "p \<noteq> []"
  shows "initial_slashes_of (p @ CHR ''/'' # s) = initial_slashes_of p"
proof (cases p)
  case Nil
  with assms show ?thesis by simp
next
  case (Cons a p1)
  show ?thesis
  proof (cases p1)
    case Nil
    with Cons assms show ?thesis by (auto simp: initial_slashes_of_def)
  next
    case (Cons b p2)
    note p1 = this
    show ?thesis
    proof (cases p2)
      case Nil
      with p1 \<open>p = a # p1\<close> assms show ?thesis by (auto simp: initial_slashes_of_def)
    next
      case (Cons c p3)
      with p1 \<open>p = a # p1\<close> show ?thesis by (simp add: initial_slashes_of_def)
    qed
  qed
qed

lemma normpath_absolute:
  assumes "prefix ''/'' p"
  shows "normpath p = replicate (initial_slashes_of p) CHR ''/'' @ join_sep (norm_comps p)"
proof -
  from assms have "p \<noteq> []" by auto
  moreover from assms have "0 < initial_slashes_of p" by (rule initial_slashes_of_pos)
  ultimately show ?thesis by (simp add: normpath_def Let_def)
qed

lemma normpath_absolute_prefix:
  assumes "prefix ''/'' p"
  shows "prefix ''/'' (normpath p)"
proof -
  from assms have "0 < initial_slashes_of p" by (rule initial_slashes_of_pos)
  then obtain k where "initial_slashes_of p = Suc k" by (cases "initial_slashes_of p") auto
  then show ?thesis by (simp add: normpath_absolute [OF assms])
qed

text \<open>
  Going down from an absolute path \<open>p\<close> by a suffix without parent-directory components
  keeps the normalised path or extends it behind a separator, unless \<open>p\<close> normalises to
  a root (\<open>/\<close> or \<open>//\<close>).
\<close>

lemma normpath_descend:
  assumes abs: "prefix ''/'' p"
    and nodd: "''..'' \<notin> set (split_sep s)"
    and nr1: "normpath p \<noteq> ''/''" and nr2: "normpath p \<noteq> ''//''"
  shows "normpath (p @ ''/'' @ s) = normpath p
         \<or> (\<exists>t. normpath (p @ ''/'' @ s) = normpath p @ ''/'' @ t)"
proof -
  let ?q = "p @ CHR ''/'' # s"
  let ?i = "initial_slashes_of p"
  let ?sc = "filter (\<lambda>c. c \<noteq> [] \<and> c \<noteq> ''.'') (split_sep s)"
  have np: "normpath p = replicate ?i CHR ''/'' @ join_sep (norm_comps p)"
    by (rule normpath_absolute [OF abs])
  have i12: "?i = 1 \<or> ?i = 2"
    using initial_slashes_of_cases [of p] initial_slashes_of_pos [OF abs] by auto
  have nc: "norm_comps p \<noteq> []"
  proof
    assume "norm_comps p = []"
    with np i12 nr1 nr2 show False by (auto simp: numeral_2_eq_2)
  qed
  have p1: "p \<noteq> ''/''"
  proof
    assume "p = ''/''"
    then have "norm_comps p = []"
      by (simp add: norm_comps_def norm_step_def)
    with nc show False by simp
  qed
  have p2: "p \<noteq> ''//''"
  proof
    assume "p = ''//''"
    then have "norm_comps p = []"
      by (simp add: norm_comps_def norm_step_def)
    with nc show False by simp
  qed
  from abs have p0: "p \<noteq> []" by auto
  have iq: "initial_slashes_of ?q = ?i"
    by (rule initial_slashes_of_descend [OF p1 p2 p0])
  from abs have absq: "prefix ''/'' ?q" by (cases p) auto
  have "norm_comps ?q = foldl (norm_step ?i) (norm_comps p) (split_sep s)"
    by (simp add: norm_comps_def iq split_sep_append)
  also have "\<dots> = norm_comps p @ ?sc"
    by (rule foldl_norm_step_plain [OF nodd])
  finally have ncq: "norm_comps ?q = norm_comps p @ ?sc" .
  have nq: "normpath ?q = replicate ?i CHR ''/'' @ join_sep (norm_comps p @ ?sc)"
    using normpath_absolute [OF absq] by (simp add: iq ncq)
  show ?thesis
  proof (cases "?sc = []")
    case True
    with nq np show ?thesis by simp
  next
    case False
    have "join_sep (norm_comps p @ ?sc) = join_sep (norm_comps p) @ ''/'' @ join_sep ?sc"
      by (rule join_sep_append [OF nc False])
    with nq np have "normpath ?q = normpath p @ ''/'' @ join_sep ?sc" by simp
    then show ?thesis by auto
  qed
qed

lemma join_descend:
  assumes "p \<noteq> []" and "\<not> prefix ''/'' p"
  shows "join cwd (p @ r) = join cwd p @ r"
  using assms by (cases p) (auto simp: join_def)

lemma join_absolute:
  assumes "prefix ''/'' cwd"
  shows "prefix ''/'' (join cwd p)"
  using assms by (cases cwd) (auto simp: join_def)

text \<open>The same for \<^verbatim>\<open>abspath\<close>, for a process whose working directory is absolute.\<close>

lemma abspath_descend:
  assumes cwd: "prefix ''/'' cwd" and p0: "p \<noteq> []"
    and nodd: "''..'' \<notin> set (split_sep s)"
    and nr1: "abspath cwd p \<noteq> ''/''" and nr2: "abspath cwd p \<noteq> ''//''"
  shows "abspath cwd (p @ ''/'' @ s) = abspath cwd p
         \<or> (\<exists>t. abspath cwd (p @ ''/'' @ s) = abspath cwd p @ ''/'' @ t)"
proof (cases "prefix ''/'' p")
  case True
  then have "prefix ''/'' (p @ ''/'' @ s)" by (cases p) auto
  with True show ?thesis
    using normpath_descend [OF True nodd] nr1 nr2 by (simp add: abspath_def isabs_def)
next
  case False
  with p0 have nq: "\<not> prefix ''/'' (p @ ''/'' @ s)" by (cases p) auto
  have j: "join cwd (p @ CHR ''/'' # s) = join cwd p @ CHR ''/'' # s"
    by (rule join_descend [OF p0 False])
  have ja: "prefix ''/'' (join cwd p)" by (rule join_absolute [OF cwd])
  from False nq show ?thesis
    using normpath_descend [OF ja nodd] nr1 nr2 by (simp add: abspath_def isabs_def j)
qed

lemma abspath_absolute:
  assumes "prefix ''/'' cwd"
  shows "prefix ''/'' (abspath cwd p)"
proof (cases "prefix ''/'' p")
  case True
  then show ?thesis by (simp add: abspath_def isabs_def normpath_absolute_prefix)
next
  case False
  then show ?thesis
    by (simp add: abspath_def isabs_def normpath_absolute_prefix join_absolute [OF assms])
qed

lemma on_some_mount_iff:
  "on_some_mount ap ms = (\<exists>m \<in> set ms. ap = m \<or> prefix (m @ ''/'') ap)"
  by (induction ms) auto

text \<open>
  Exclusion is closed under descendants for every mount list that holds neither root
  (\<open>/\<close> nor \<open>//\<close>).
\<close>

lemma path_on_skipped_mount_descend:
  assumes cwd: "prefix ''/'' cwd" and p0: "p \<noteq> []"
    and nodd: "''..'' \<notin> set (split_sep s)"
    and r1: "''/'' \<notin> set ms" and r2: "''//'' \<notin> set ms"
    and ex: "path_on_skipped_mount cwd p ms"
  shows "path_on_skipped_mount cwd (p @ ''/'' @ s) ms"
proof -
  let ?ap = "abspath cwd p"
  let ?aq = "abspath cwd (p @ ''/'' @ s)"
  from ex obtain m where m: "m \<in> set ms" and hit: "?ap = m \<or> prefix (m @ ''/'') ?ap"
    by (auto simp: path_on_skipped_mount_def on_some_mount_iff Let_def)
  have "?aq = m \<or> prefix (m @ ''/'') ?aq"
  proof (cases "?ap = ''/'' \<or> ?ap = ''//''")
    case True
    with hit m r1 r2 have "prefix (m @ ''/'') ?ap" by auto
    with True m r1 r2 have "m = []" by (cases m) (auto simp: prefix_Cons)
    moreover have "prefix ''/'' ?aq" by (rule abspath_absolute [OF cwd])
    ultimately show ?thesis by simp
  next
    case False
    then have "?aq = ?ap \<or> (\<exists>t. ?aq = ?ap @ ''/'' @ t)"
      using abspath_descend [OF cwd p0 nodd] by simp
    then show ?thesis
    proof
      assume "?aq = ?ap"
      with hit show ?thesis by simp
    next
      assume "\<exists>t. ?aq = ?ap @ ''/'' @ t"
      then obtain t where t: "?aq = ?ap @ ''/'' @ t" ..
      from hit show ?thesis
      proof
        assume "?ap = m"
        with t show ?thesis by simp
      next
        assume "prefix (m @ ''/'') ?ap"
        then have "prefix (m @ ''/'') (?ap @ ''/'' @ t)" by (rule prefix_prefix)
        with t show ?thesis by simp
      qed
    qed
  qed
  with m show ?thesis
    by (auto simp: path_on_skipped_mount_def on_some_mount_iff Let_def)
qed

lemma prefix_snoc_iff:
  "prefix (m @ [c]) ap \<longleftrightarrow> strict_prefix m ap \<and> ap ! length m = c"
proof
  assume "prefix (m @ [c]) ap"
  then obtain t where "ap = (m @ [c]) @ t" by (auto simp: prefix_def)
  then show "strict_prefix m ap \<and> ap ! length m = c" by (simp add: strict_prefix_def)
next
  assume a: "strict_prefix m ap \<and> ap ! length m = c"
  then obtain x t where "ap = m @ x # t" by (auto elim: strict_prefixE')
  with a show "prefix (m @ [c]) ap" by simp
qed

text \<open>
  The code's test and the specification's agree on every mount list none of whose
  mountpoints ends with the separator.
\<close>

lemma path_on_skipped_mount_spec:
  assumes "\<forall>m \<in> set ms. m = [] \<or> last m \<noteq> CHR ''/''"
  shows "path_on_skipped_mount cwd p ms = is_excluded_spec (abspath cwd p) ms"
proof -
  have "prefix (m @ ''/'') ap \<longleftrightarrow> strictly_inside m ap" if "m \<in> set ms" for m ap
    using assms that prefix_snoc_iff [of m "CHR ''/''" ap] by (auto simp: strictly_inside_def)
  then show ?thesis
    by (auto simp: path_on_skipped_mount_def on_some_mount_iff is_excluded_spec_def
        list_ex_iff Let_def)
qed

lemmas path_eval = path_on_skipped_mount_def abspath_def isabs_def normpath_def
  norm_comps_def initial_slashes_of_def norm_step_def join_def Let_def

lemma not_fooled_by_name_prefix:
  "\<not> path_on_skipped_mount ''/'' ''/mnt/foobar'' [''/mnt/foo'']
   \<and> path_on_skipped_mount ''/'' ''/mnt/foo/bar'' [''/mnt/foo'']
   \<and> path_on_skipped_mount ''/'' ''/mnt/foo'' [''/mnt/foo'']"
  by (simp add: path_eval)

section \<open>Facts about the digest\<close>

lemma length_compress: "length (compress h m t final) = 8"
  by (simp add: compress_def Let_def)

lemma length_absorb: "length (absorb h t d) = 8"
proof (induction h t d rule: absorb.induct)
  case (1 h t d)
  then show ?case by (subst absorb.simps) (simp add: length_compress)
qed

lemma length_le_bytes: "length (le_bytes w) = 8"
  by (simp add: le_bytes_def)

lemma length_concat_const:
  "(\<And>x. x \<in> set xss \<Longrightarrow> length x = n) \<Longrightarrow> length (concat xss) = n * length xss"
  by (induction xss) simp_all

lemma length_blake2b: "length (blake2b 64 data) = 64"
proof -
  have "length (concat (map le_bytes (absorb h t d)))
          = 8 * length (map le_bytes (absorb h t d))" for h t d
    by (rule length_concat_const) (auto simp: length_le_bytes)
  then have "length (concat (map le_bytes (absorb h t d))) = 64" for h t d
    by (simp add: length_absorb)
  then show ?thesis by (simp add: blake2b_def Let_def)
qed

lemma length_hexdigest: "length (hexdigest bs) = 2 * length bs"
  by (induction bs) (simp_all add: hexdigest_def hex_byte_def)

lemma hex_digit_range: "hex_digit n \<in> set hexdigits"
proof -
  have "length hexdigits = 16" by (simp add: hexdigits_def)
  then have "n mod 16 < length hexdigits" by simp
  then show ?thesis unfolding hex_digit_def by (rule nth_mem)
qed

lemma set_hexdigest: "set (hexdigest bs) \<subseteq> set hexdigits"
proof -
  have "set (hex_byte b) \<subseteq> set hexdigits" for b
    by (simp add: hex_byte_def hex_digit_range)
  then show ?thesis by (auto simp: hexdigest_def)
qed

lemma length_hexdigest_blake2b: "length (hexdigest (blake2b 64 data)) = 128"
  by (simp add: length_hexdigest length_blake2b)

lemma hexdigest_blake2b_nonempty: "hexdigest (blake2b 64 data) \<noteq> []"
  using length_hexdigest_blake2b [of data] by auto


section \<open>Facts about draining and submitting\<close>

lemma drain_one_fields:
  "futures (drain_one s k st f) = remove1 f (futures st)"
  "drained (drain_one s k st f) = drained st @ [f]"
  "done_n (drain_one s k st f) = done_n st + 1"
  "submitted (drain_one s k st f) = submitted st"
  "errors (drain_one s k st f) = errors st + (if truthy (fut_digest s k f) then 0 else 1)"
  "out (drain_one s k st f) = out st @ fut_lines s k f"
  by (simp_all add: drain_one_def Let_def fut_digest_def fut_lines_def split: prod.splits)

lemma foldl_drain_one_fields:
  "futures (foldl (drain_one s k) st fs) = foldl (\<lambda>l f. remove1 f l) (futures st) fs"
  "drained (foldl (drain_one s k) st fs) = drained st @ fs"
  "done_n (foldl (drain_one s k) st fs) = done_n st + length fs"
  "submitted (foldl (drain_one s k) st fs) = submitted st"
  "errors (foldl (drain_one s k) st fs)
     = errors st + length (filter (\<lambda>f. \<not> truthy (fut_digest s k f)) fs)"
  "out (foldl (drain_one s k) st fs) = out st @ concat (map (fut_lines s k) fs)"
  by (induction fs arbitrary: st) (simp_all add: drain_one_fields)

lemma drain_loop_all:
  "(case n of None \<Rightarrow> True | Some b \<Rightarrow> cnt + length fs \<le> b) \<Longrightarrow>
   drain_loop s k n cnt st fs = foldl (drain_one s k) st fs"
proof (induction fs arbitrary: cnt st)
  case Nil
  show ?case by simp
next
  case (Cons f fs)
  show ?case
  proof (cases n)
    case None
    with Cons.IH [of "cnt + 1" "drain_one s k st f"] show ?thesis by (simp add: Let_def)
  next
    case (Some b)
    with Cons.prems have le: "cnt + 1 + length fs \<le> b" by simp
    show ?thesis
    proof (cases "b \<le> cnt + 1")
      case True
      with le have "length fs = 0" by arith
      then have "fs = []" by simp
      with Some True show ?thesis by (simp add: Let_def)
    next
      case False
      with Some le Cons.IH [of "cnt + 1" "drain_one s k st f"] show ?thesis
        by (simp add: Let_def)
    qed
  qed
qed

lemma foldl_remove1_filter:
  "distinct xs \<Longrightarrow> foldl (\<lambda>l f. remove1 f l) xs ys = filter (\<lambda>x. x \<notin> set ys) xs"
proof (induction ys arbitrary: xs)
  case Nil
  show ?case by simp
next
  case (Cons y ys)
  have "remove1 y xs = filter (\<lambda>x. x \<noteq> y) xs"
    using Cons.prems
    by (auto simp: distinct_remove1_removeAll removeAll_filter_not_eq intro: filter_cong)
  moreover have "distinct (remove1 y xs)" using Cons.prems by simp
  ultimately show ?case using Cons.IH [of "remove1 y xs"] by (simp add: conj_commute)
qed

lemma filter_not_in_take:
  assumes d: "distinct xs"
  shows "filter (\<lambda>x. x \<notin> set (take n xs)) xs = drop n xs"
proof -
  let ?P = "\<lambda>x. x \<notin> set (take n xs)"
  have "distinct (take n xs @ drop n xs)" using d by simp
  then have disj: "set (take n xs) \<inter> set (drop n xs) = {}"
    by (simp only: distinct_append)
  have a: "filter ?P (take n xs) = []" by (simp add: filter_empty_conv)
  have b: "filter ?P (drop n xs) = drop n xs" using disj by (auto simp: filter_id_conv)
  have "filter ?P xs = filter ?P (take n xs @ drop n xs)" by simp
  also have "\<dots> = filter ?P (take n xs) @ filter ?P (drop n xs)" by (rule filter_append)
  finally show ?thesis using a b by simp
qed

lemma foldl_remove1_take:
  assumes "distinct xs" and "mset ys = mset (take n xs)"
  shows "foldl (\<lambda>l f. remove1 f l) xs ys = drop n xs"
proof -
  from assms(2) have "set ys = set (take n xs)" by (rule mset_eq_setD)
  with assms(1) show ?thesis by (simp add: foldl_remove1_filter filter_not_in_take)
qed


lemma drain_effect:
  assumes ca: "completes_all s" and d: "distinct (futures st)"
  shows "drain s k n st =
           foldl (drain_one s k) st
             (as_completed s (case n of None \<Rightarrow> futures st | Some b \<Rightarrow> take b (futures st)))"
    and "mset (as_completed s (case n of None \<Rightarrow> futures st | Some b \<Rightarrow> take b (futures st)))
           = mset (case n of None \<Rightarrow> futures st | Some b \<Rightarrow> take b (futures st))"
proof -
  let ?snap = "case n of None \<Rightarrow> futures st | Some b \<Rightarrow> take b (futures st)"
  have ds: "distinct ?snap" using d by (cases n) simp_all
  with ca show m: "mset (as_completed s ?snap) = mset ?snap"
    by (simp add: completes_all_def)
  then have "length (as_completed s ?snap) = length ?snap" by (rule mset_eq_length)
  then have "case n of None \<Rightarrow> True | Some b \<Rightarrow> 0 + length (as_completed s ?snap) \<le> b"
    by (cases n) simp_all
  then have "drain_loop s k n 0 st (as_completed s ?snap)
               = foldl (drain_one s k) st (as_completed s ?snap)"
    by (rule drain_loop_all)
  then show "drain s k n st = foldl (drain_one s k) st (as_completed s ?snap)"
    by (simp add: drain_def Let_def)
qed

lemma length_futures_of: "length (futures_of ps) = length ps"
  by (simp add: futures_of_def)

lemma futures_of_snoc:
  "futures_of (ps @ [p]) = futures_of ps @ [\<lparr>fid = length ps, fpath = p\<rparr>]"
  by (simp add: futures_of_def nth_append)

lemma distinct_futures_of: "distinct (futures_of ps)"
  by (auto simp: futures_of_def distinct_map inj_on_def)

lemma batch_same:
  fixes n b h :: nat
  assumes "Suc n mod b \<noteq> 0"
  shows "h * (Suc n div b) = h * (n div b)"
  using assms by (simp add: div_Suc)

lemma batch_next:
  fixes n b h :: nat
  assumes "Suc n mod b = 0"
  shows "h * (n div b) + h = h * (Suc n div b)"
  using assms by (simp add: div_Suc)

lemma batch_room:
  fixes n b h :: nat
  assumes z: "Suc n mod b = 0" and hb: "h \<le> b"
  shows "h * (n div b) + h \<le> Suc n"
proof -
  have "h * (n div b) + h = h * (Suc n div b)" using z by (rule batch_next)
  also have "\<dots> \<le> b * (Suc n div b)" using hb by (rule mult_le_mono1)
  also have "\<dots> = Suc n" using z by (simp add: mod_eq_0_iff_dvd)
  finally show ?thesis .
qed

lemma accounted_submit_one:
  assumes ca: "completes_all s"
    and acc: "accounted s k ps st"
    and dn: "done_n st = (SUBMIT_BATCH div 2) * (length ps div SUBMIT_BATCH)"
  shows "accounted s k (ps @ [p]) (submit_one s k st p)
         \<and> done_n (submit_one s k st p)
             = (SUBMIT_BATCH div 2) * (length (ps @ [p]) div SUBMIT_BATCH)"
proof -
  let ?F = "futures_of ps"
  let ?F' = "futures_of (ps @ [p])"
  let ?d = "done_n st"
  let ?b = "SUBMIT_BATCH div 2"
  let ?bad = "\<lambda>f. \<not> truthy (fut_digest s k f)"
  define fut where "fut = \<lparr>fid = submitted st, fpath = p\<rparr>"
  define st1 where "st1 = st\<lparr>futures := futures st @ [fut], submitted := submitted st + 1\<rparr>"
  from acc have sub: "submitted st = length ps"
    and dl: "?d = length (drained st)"
    and dle: "?d \<le> length ps"
    and fu: "futures st = drop ?d ?F"
    and dr: "mset (drained st) = mset (take ?d ?F)"
    and er: "errors st = length (filter ?bad (drained st))"
    and ou: "out st = concat (map (fut_lines s k) (drained st))"
    by (simp_all add: accounted_def)
  have F': "?F' = ?F @ [fut]" by (simp add: futures_of_snoc sub fut_def)
  have lenF: "length ?F = length ps" by (rule length_futures_of)
  have lenF': "length ?F' = Suc (length ps)" by (simp add: length_futures_of)
  have fu1: "futures st1 = drop ?d ?F'" using fu dle lenF by (simp add: F' st1_def)
  have tk: "take ?d ?F' = take ?d ?F" using dle lenF by (simp add: F')
  have same1: "submitted st1 = Suc (length ps)" "done_n st1 = ?d" "drained st1 = drained st"
    "errors st1 = errors st" "out st1 = out st"
    by (simp_all add: st1_def sub)
  have dist1: "distinct (futures st1)"
    unfolding fu1 using distinct_futures_of [of "ps @ [p]"] by simp
  have so: "submit_one s k st p
              = (if Suc (length ps) mod SUBMIT_BATCH = 0 then drain s k (Some ?b) st1 else st1)"
    by (simp add: submit_one_def Let_def sub st1_def fut_def)
  show ?thesis
  proof (cases "Suc (length ps) mod SUBMIT_BATCH = 0")
    case False
    have "accounted s k (ps @ [p]) st1"
      unfolding accounted_def using same1 dl dle fu1 dr er ou tk by simp
    moreover have "?b * (Suc (length ps) div SUBMIT_BATCH) = ?b * (length ps div SUBMIT_BATCH)"
      using False by (rule batch_same)
    ultimately show ?thesis using so dn False same1 by auto
  next
    case True
    define ys where "ys = as_completed s (take ?b (futures st1))"
    define st2 where "st2 = foldl (drain_one s k) st1 ys"
    have dr1: "drain s k (Some ?b) st1 = st2"
      using drain_effect(1) [OF ca dist1, of k "Some ?b"] by (simp add: st2_def ys_def)
    have ms: "mset ys = mset (take ?b (futures st1))"
      using drain_effect(2) [OF ca dist1, of "Some ?b"] by (simp add: ys_def)
    have room: "?d + ?b \<le> Suc (length ps)"
      unfolding dn using True by (rule batch_room) simp
    have leny: "length ys = ?b"
    proof -
      have "length ys = length (take ?b (futures st1))" using ms by (rule mset_eq_length)
      also have "\<dots> = ?b" using room by (simp add: fu1 lenF')
      finally show ?thesis .
    qed
    have f2: "futures st2 = drop (?d + ?b) ?F'"
    proof -
      have "futures st2 = foldl (\<lambda>l f. remove1 f l) (futures st1) ys"
        unfolding st2_def by (rule foldl_drain_one_fields)
      also have "\<dots> = drop ?b (futures st1)"
        by (rule foldl_remove1_take [OF dist1 ms])
      also have "\<dots> = drop (?d + ?b) ?F'" by (simp add: fu1 add.commute)
      finally show ?thesis .
    qed
    have d2: "drained st2 = drained st @ ys"
      by (simp add: st2_def foldl_drain_one_fields same1)
    have n2: "done_n st2 = ?d + ?b"
      by (simp add: st2_def foldl_drain_one_fields leny same1)
    have s2: "submitted st2 = Suc (length ps)"
      by (simp add: st2_def foldl_drain_one_fields same1)
    have e2: "errors st2 = length (filter ?bad (drained st2))"
      by (simp add: d2) (simp add: st2_def foldl_drain_one_fields er same1)
    have o2: "out st2 = concat (map (fut_lines s k) (drained st2))"
      by (simp add: d2) (simp add: st2_def foldl_drain_one_fields ou same1)
    have m2: "mset (drained st2) = mset (take (?d + ?b) ?F')"
    proof -
      have "mset (drained st2) = mset (take ?d ?F') + mset (take ?b (drop ?d ?F'))"
        using dr ms by (simp add: d2 tk fu1)
      also have "\<dots> = mset (take (?d + ?b) ?F')" by (simp add: take_add)
      finally show ?thesis .
    qed
    have "accounted s k (ps @ [p]) st2"
      unfolding accounted_def using s2 n2 room f2 m2 e2 o2 dl leny d2 by simp
    moreover have "?d + ?b = ?b * (Suc (length ps) div SUBMIT_BATCH)"
      unfolding dn using True by (rule batch_next)
    ultimately show ?thesis using so dr1 n2 True by simp
  qed
qed

lemma accounted_run0: "accounted s k [] run0"
  by (simp add: accounted_def run0_def futures_of_def)

lemma accounted_foldl_submit_one:
  assumes ca: "completes_all s"
  shows "accounted s k ps (foldl (submit_one s k) run0 ps)
         \<and> done_n (foldl (submit_one s k) run0 ps)
             = (SUBMIT_BATCH div 2) * (length ps div SUBMIT_BATCH)"
proof (induction ps rule: rev_induct)
  case Nil
  show ?case using accounted_run0 [of s k] by (simp add: run0_def)
next
  case (snoc p ps)
  then show ?case using accounted_submit_one [OF ca, of k ps _ p] by simp
qed

lemma foldl_submit_dir:
  "foldl (submit_dir s k) st w = foldl (submit_one s k) st (discovered w)"
proof (induction w arbitrary: st)
  case Nil
  show ?case by (simp add: discovered_def)
next
  case (Cons e w)
  obtain dirpath dirnames filenames where e: "e = (dirpath, dirnames, filenames)"
    by (cases e) auto
  have "submit_dir s k st e = foldl (submit_one s k) st (map (join dirpath) filenames)"
    by (simp add: submit_dir_def e foldl_map)
  with Cons show ?case by (simp add: discovered_def e)
qed

lemma submit_all_eq:
  "submit_all s rootdir
     = foldl (submit_one s (mounts_to_skip s)) run0 (discovered (os_walk s rootdir))"
  by (simp add: submit_all_def foldl_submit_dir)


lemma drain_all_accounted:
  assumes ca: "completes_all s" and acc: "accounted s k ps st"
  shows "accounted s k ps (drain s k None st) \<and> done_n (drain s k None st) = length ps"
proof -
  let ?bad = "\<lambda>f. \<not> truthy (fut_digest s k f)"
  let ?F = "futures_of ps"
  let ?d = "done_n st"
  from acc have sub: "submitted st = length ps"
    and dl: "?d = length (drained st)"
    and dle: "?d \<le> length ps"
    and fu: "futures st = drop ?d ?F"
    and dr: "mset (drained st) = mset (take ?d ?F)"
    and er: "errors st = length (filter ?bad (drained st))"
    and ou: "out st = concat (map (fut_lines s k) (drained st))"
    by (simp_all add: accounted_def)
  have dist: "distinct (futures st)" unfolding fu using distinct_futures_of [of ps] by simp
  define ys where "ys = as_completed s (futures st)"
  define st2 where "st2 = foldl (drain_one s k) st ys"
  have dr1: "drain s k None st = st2"
    using drain_effect(1) [OF ca dist, of k None] by (simp add: st2_def ys_def)
  have ms: "mset ys = mset (futures st)"
    using drain_effect(2) [OF ca dist, of None] by (simp add: ys_def)
  have leny: "length ys = length ps - ?d"
  proof -
    have "length ys = length (futures st)" using ms by (rule mset_eq_length)
    then show ?thesis by (simp add: fu length_futures_of)
  qed
  have f2: "futures st2 = []"
  proof -
    have "futures st2 = foldl (\<lambda>l f. remove1 f l) (futures st) ys"
      unfolding st2_def by (rule foldl_drain_one_fields)
    also have "\<dots> = drop (length (futures st)) (futures st)"
      by (rule foldl_remove1_take [OF dist]) (simp add: ms)
    finally show ?thesis by simp
  qed
  have d2: "drained st2 = drained st @ ys" by (simp add: st2_def foldl_drain_one_fields)
  have n2: "done_n st2 = length ps"
    using dle by (simp add: st2_def foldl_drain_one_fields leny)
  have s2: "submitted st2 = length ps" by (simp add: st2_def foldl_drain_one_fields sub)
  have e2: "errors st2 = length (filter ?bad (drained st2))"
    by (simp add: d2) (simp add: st2_def foldl_drain_one_fields er)
  have o2: "out st2 = concat (map (fut_lines s k) (drained st2))"
    by (simp add: d2) (simp add: st2_def foldl_drain_one_fields ou)
  have m2: "mset (drained st2) = mset ?F"
  proof -
    have "mset (drained st2) = mset (take ?d ?F) + mset (drop ?d ?F)"
      using dr ms by (simp add: d2 fu)
    also have "\<dots> = mset (take ?d ?F @ drop ?d ?F)" by (simp only: mset_append)
    finally show ?thesis by simp
  qed
  have "accounted s k ps st2"
    unfolding accounted_def using s2 n2 f2 m2 e2 o2 dl leny d2 dle
    by (simp add: length_futures_of)
  with dr1 n2 show ?thesis by simp
qed

lemma hash_one_fst: "fst (hash_one s (path, skip)) = path"
  by (simp add: hash_one_def)

lemma blake2b_file_cases:
  "blake2b_file s path = None \<or>
   (\<exists>h. blake2b_file s path = Some (hexdigest (blake2b 64 h)))"
  by (auto simp: blake2b_file_def blake2b_file_try_def split: sum.splits)

lemma fut_digest_cases:
  "fut_digest s k f = None \<or> (\<exists>h. fut_digest s k f = Some (hexdigest (blake2b 64 h)))"
  using blake2b_file_cases [of s "fpath f"]
  by (auto simp: fut_digest_def hash_one_def)

lemma fut_lines_cases:
  "fut_lines s k f = [] \<or>
   (\<exists>h. fut_lines s k f = [record_line (hexdigest (blake2b 64 h))])"
  using fut_digest_cases [of s k f] by (auto simp: fut_lines_def truthy_def)

lemma fut_lines_length:
  "length (fut_lines s k f) = (if truthy (fut_digest s k f) then 1 else 0)"
  by (simp add: fut_lines_def)

lemma records_plus_errors:
  "length (concat (map (fut_lines s k) ds))
     + length (filter (\<lambda>f. \<not> truthy (fut_digest s k f)) ds) = length ds"
  by (induction ds) (simp_all add: fut_lines_length)

lemma hash_all_accounted:
  assumes ca: "completes_all s" and ps: "pool_size s workers \<noteq> 0"
  shows "\<exists>st. hash_all s rootdir workers = Inr st
            \<and> accounted s (mounts_to_skip s) (discovered (os_walk s rootdir)) st
            \<and> done_n st = length (discovered (os_walk s rootdir))"
proof -
  let ?k = "mounts_to_skip s"
  let ?ps = "discovered (os_walk s rootdir)"
  have "accounted s ?k ?ps (submit_all s rootdir)"
    using accounted_foldl_submit_one [OF ca, of ?k ?ps] by (simp add: submit_all_eq)
  then have "accounted s ?k ?ps (drain s ?k None (submit_all s rootdir))
             \<and> done_n (drain s ?k None (submit_all s rootdir)) = length ?ps"
    by (rule drain_all_accounted [OF ca])
  with ps show ?thesis by (simp add: hash_all_def)
qed




lemma fut_lines_path: "fut_lines s k f = path_lines s k (fpath f)"
  by (simp add: fut_lines_def path_lines_def fut_digest_def Let_def)

lemma map_fpath_futures_of: "map fpath (futures_of ps) = ps"
  by (simp add: futures_of_def o_def map_nth)

lemma length_filter_mset_eq:
  assumes "mset xs = mset ys"
  shows "length (filter P xs) = length (filter P ys)"
proof -
  have "mset (filter P xs) = filter_mset P (mset xs)" by (rule mset_filter)
  also have "\<dots> = filter_mset P (mset ys)" by (simp only: assms)
  also have "\<dots> = mset (filter P ys)" by (rule mset_filter [symmetric])
  finally have "mset (filter P xs) = mset (filter P ys)" .
  then show ?thesis by (rule mset_eq_length)
qed

lemma mset_concat_map_eq:
  assumes "mset xs = mset ys"
  shows "mset (concat (map g xs)) = mset (concat (map g ys))"
proof -
  have "mset (concat (map g zs)) = sum_mset (image_mset (\<lambda>z. mset (g z)) (mset zs))" for zs
    by (induction zs) simp_all
  with assms show ?thesis by simp
qed

lemma hash_all_summary:
  assumes ca: "completes_all s" and ps: "pool_size s workers \<noteq> 0"
  shows "\<exists>st. hash_all s rootdir workers = Inr st
           \<and> futures st = []
           \<and> submitted st = length (discovered (os_walk s rootdir))
           \<and> done_n st = length (discovered (os_walk s rootdir))
           \<and> errors st = length (filter (\<lambda>p. \<not> truthy (snd (hash_one s (p, mounts_to_skip s))))
                                    (discovered (os_walk s rootdir)))
           \<and> mset (out st)
               = mset (concat (map (path_lines s (mounts_to_skip s))
                                 (discovered (os_walk s rootdir))))"
proof -
  let ?ps = "discovered (os_walk s rootdir)"
  let ?k = "mounts_to_skip s"
  let ?B = "\<lambda>p. \<not> truthy (snd (hash_one s (p, ?k)))"
  from hash_all_accounted [OF assms, of rootdir] obtain st
    where h: "hash_all s rootdir workers = Inr st"
      and acc: "accounted s ?k ?ps st" and dn: "done_n st = length ?ps" by blast
  from acc dn have f: "futures st = []" by (simp add: accounted_def length_futures_of)
  from acc dn have m: "mset (drained st) = mset (futures_of ?ps)"
    by (simp add: accounted_def length_futures_of)
  from acc have sub: "submitted st = length ?ps"
    and er: "errors st = length (filter (\<lambda>f. \<not> truthy (fut_digest s ?k f)) (drained st))"
    and ou: "out st = concat (map (fut_lines s ?k) (drained st))"
    by (simp_all add: accounted_def)
  have e: "errors st = length (filter ?B ?ps)"
  proof -
    have "errors st = length (filter (\<lambda>f. ?B (fpath f)) (drained st))"
      by (simp add: er fut_digest_def)
    also have "\<dots> = length (filter (\<lambda>f. ?B (fpath f)) (futures_of ?ps))"
      by (rule length_filter_mset_eq [OF m])
    also have "\<dots> = length (filter ?B (map fpath (futures_of ?ps)))"
      by (simp add: filter_map o_def)
    finally show ?thesis by (simp add: map_fpath_futures_of)
  qed
  have o: "mset (out st) = mset (concat (map (path_lines s ?k) ?ps))"
  proof -
    have "mset (out st) = mset (concat (map (\<lambda>f. path_lines s ?k (fpath f)) (drained st)))"
      by (simp add: ou fut_lines_path [abs_def])
    also have "\<dots> = mset (concat (map (\<lambda>f. path_lines s ?k (fpath f)) (futures_of ?ps)))"
      by (rule mset_concat_map_eq [OF m])
    also have "\<dots> = mset (concat (map (path_lines s ?k) (map fpath (futures_of ?ps))))"
      by (simp add: o_def)
    finally show ?thesis by (simp add: map_fpath_futures_of)
  qed
  from h f sub dn e o show ?thesis by blast
qed



lemma path_lines_length:
  "length (path_lines s k p) = (if truthy (snd (hash_one s (p, k))) then 1 else 0)"
  by (simp add: path_lines_def Let_def)

lemma length_concat_path_lines:
  "length (concat (map (path_lines s k) ps))
     = length (filter (\<lambda>p. truthy (snd (hash_one s (p, k)))) ps)"
  by (induction ps) (simp_all add: path_lines_length)







lemma bytes_of_eq_Nil: "bytes_of txt = [] \<longleftrightarrow> txt = []"
  by (simp add: bytes_of_def)

lemma completes_all_scenario:
  "completes_all (scenario_sys order) \<longleftrightarrow> (\<forall>fs. distinct fs \<longrightarrow> mset (order fs) = mset fs)"
  by (simp add: completes_all_def scenario_sys_def tree_sys_def)

lemma pool_size_scenario: "pool_size (scenario_sys order) None = 4"
  by (simp add: pool_size_def scenario_sys_def tree_sys_def)

lemma mounts_scenario: "mounts_to_skip (scenario_sys order) = [''/proc'', ''/sys'']"
  by (simp add: scenario_sys_def tree_sys_def)

lemma scenario_discovered:
  "discovered (os_walk (scenario_sys order) ''/data'')
     = [''/data/a.txt'', ''/data/b.txt'', ''/data/link'', ''/data/sub/c.txt'']"
  by (simp add: scenario_sys_def scenario_tree_def tree_sys_def discovered_def join_def)

lemmas worker_eval = hash_one_def is_regular_file_def blake2b_file_def blake2b_file_try_def
  scenario_sys_def scenario_tree_def tree_sys_def join_def bytes_of_eq_Nil

lemma scenario_results:
  "hash_one (scenario_sys order) (''/data/a.txt'', [''/proc'', ''/sys''])
     = (''/data/a.txt'', Some (hexdigest (blake2b 64 (bytes_of ''hello''))))"
  "hash_one (scenario_sys order) (''/data/b.txt'', [''/proc'', ''/sys''])
     = (''/data/b.txt'', Some (hexdigest (blake2b 64 (bytes_of ''hello''))))"
  "hash_one (scenario_sys order) (''/data/link'', [''/proc'', ''/sys''])
     = (''/data/link'', None)"
  "hash_one (scenario_sys order) (''/data/sub/c.txt'', [''/proc'', ''/sys''])
     = (''/data/sub/c.txt'', Some (hexdigest (blake2b 64 (bytes_of ''world''))))"
  by (simp_all add: worker_eval path_eval)

lemma scenario_lines:
  "path_lines (scenario_sys order) [''/proc'', ''/sys''] ''/data/a.txt''
     = [record_line (hexdigest (blake2b 64 (bytes_of ''hello'')))]"
  "path_lines (scenario_sys order) [''/proc'', ''/sys''] ''/data/b.txt''
     = [record_line (hexdigest (blake2b 64 (bytes_of ''hello'')))]"
  "path_lines (scenario_sys order) [''/proc'', ''/sys''] ''/data/link'' = []"
  "path_lines (scenario_sys order) [''/proc'', ''/sys''] ''/data/sub/c.txt''
     = [record_line (hexdigest (blake2b 64 (bytes_of ''world'')))]"
  by (simp_all add: path_lines_def scenario_results truthy_def hexdigest_blake2b_nonempty)

lemma scenario_run:
  assumes "\<forall>fs. distinct fs \<longrightarrow> mset (order fs) = mset fs"
  shows "\<exists>st. hash_all (scenario_sys order) ''/data'' None = Inr st
           \<and> submitted st = 4 \<and> done_n st = 4 \<and> errors st = 1
           \<and> mset (out st)
               = {#record_line (hexdigest (blake2b 64 (bytes_of ''hello''))),
                   record_line (hexdigest (blake2b 64 (bytes_of ''hello''))),
                   record_line (hexdigest (blake2b 64 (bytes_of ''world'')))#}"
proof -
  have ca: "completes_all (scenario_sys order)" using assms by (simp add: completes_all_scenario)
  have p: "pool_size (scenario_sys order) None \<noteq> 0" by (simp add: pool_size_scenario)
  let ?s = "scenario_sys order"
  let ?ps = "discovered (os_walk ?s ''/data'')"
  from hash_all_summary [OF ca p, of "''/data''"] obtain st
    where h: "hash_all ?s ''/data'' None = Inr st"
      and sub: "submitted st = length ?ps" and dn: "done_n st = length ?ps"
      and er: "errors st
                 = length (filter (\<lambda>p. \<not> truthy (snd (hash_one ?s (p, mounts_to_skip ?s)))) ?ps)"
      and ou: "mset (out st) = mset (concat (map (path_lines ?s (mounts_to_skip ?s)) ?ps))"
    by blast
  have s4: "submitted st = 4" and d4: "done_n st = 4"
    using sub dn by (simp_all add: scenario_discovered)
  have e1: "errors st = 1"
    using er by (simp add: scenario_discovered mounts_scenario scenario_results truthy_def
        hexdigest_blake2b_nonempty)
  have o3: "mset (out st)
              = {#record_line (hexdigest (blake2b 64 (bytes_of ''hello''))),
                  record_line (hexdigest (blake2b 64 (bytes_of ''hello''))),
                  record_line (hexdigest (blake2b 64 (bytes_of ''world'')))#}"
    using ou by (simp add: scenario_discovered mounts_scenario scenario_lines)
  from h s4 d4 e1 o3 show ?thesis by blast
qed

lemma as_completed_scenario: "as_completed (scenario_sys order) = order"
  by (simp add: scenario_sys_def tree_sys_def)

lemma record_line_stub: "record_line digest = digest @ '' FALSE DUMMY_REASON'' @ [CHR 0x0A]"
  by (simp add: record_line_def check_hash_def)

lemma drain_one_no_digest:
  assumes "hash_one s (fpath fut, k) = (fpath fut, None)"
  shows "errors (drain_one s k st fut) = errors st + 1"
    and "out (drain_one s k st fut) = out st"
    and "done_n (drain_one s k st fut) = done_n st + 1"
  using assms by (simp_all add: drain_one_fields fut_digest_def fut_lines_def truthy_def)


lemma failing_read_sys_open:
  "open_rb failing_read_sys ''/data/x'' = Inr [Inr (bytes_of ''ab''), Inl OSError]"
  by (simp add: failing_read_sys_def tree_sys_def join_def)


section \<open>Facts about the calls that raise\<close>

lemma teeprint_valid: "utf8_valid p \<Longrightarrow> teeprint [p] = Inr ()"
  by (simp add: teeprint_def)

lemma teeprint_invalid: "\<not> utf8_valid p \<Longrightarrow> teeprint [p] = Inl UnicodeEncodeError"
  by (simp add: teeprint_def)

lemma blake2b_file_call_valid:
  "utf8_valid p \<Longrightarrow> blake2b_file_call s p = Inr (blake2b_file s p)"
  by (simp add: blake2b_file_call_def blake2b_file_def teeprint_valid split: sum.splits)

lemma hash_one_call_invalid:
  "\<not> utf8_valid p \<Longrightarrow> hash_one_call s (p, k) = Inl UnicodeEncodeError"
  by (simp add: hash_one_call_def teeprint_invalid)

lemma hash_one_call_returns:
  assumes "worker_returns s k p"
  shows "hash_one_call s (p, k) = Inr (hash_one s (p, k))"
proof -
  from assms have v: "utf8_valid p" by (simp add: worker_returns_def)
  show ?thesis
  proof (cases "path_on_skipped_mount (getcwd s) p k")
    case True
    then show ?thesis by (simp add: hash_one_call_def hash_one_def teeprint_valid [OF v])
  next
    case False
    with assms have "case os_lstat s p of Inl e \<Rightarrow> e = OSError | Inr st_mode \<Rightarrow> True"
      by (simp add: worker_returns_def)
    then have "is_regular_file_call s p = Inr (is_regular_file s p)"
      by (simp add: is_regular_file_call_def is_regular_file_def split: sum.splits)
    with False show ?thesis
      by (simp add: hash_one_call_def hash_one_def teeprint_valid [OF v]
          blake2b_file_call_valid [OF v])
  qed
qed

lemma hash_one_call_value:
  assumes "hash_one_call s (p, k) = Inr r"
  shows "r = hash_one s (p, k)"
proof -
  have v: "utf8_valid p"
  proof (rule ccontr)
    assume "\<not> utf8_valid p"
    then have "hash_one_call s (p, k) = Inl UnicodeEncodeError" by (rule hash_one_call_invalid)
    with assms show False by simp
  qed
  show ?thesis
  proof (cases "path_on_skipped_mount (getcwd s) p k")
    case True
    with assms show ?thesis
      by (simp add: hash_one_call_def hash_one_def teeprint_valid [OF v])
  next
    case False
    with assms show ?thesis
      by (auto simp: hash_one_call_def hash_one_def teeprint_valid [OF v]
          blake2b_file_call_valid [OF v] is_regular_file_call_def is_regular_file_def
          split: sum.splits if_splits)
  qed
qed

lemma drain_one_call_returns:
  "worker_returns s k (fpath f) \<Longrightarrow> drain_one_call s k st f = Inr (drain_one s k st f)"
  by (simp add: drain_one_call_def hash_one_call_returns)

lemma drain_loop_call_returns:
  "\<forall>f \<in> set fs. worker_returns s k (fpath f) \<Longrightarrow>
   drain_loop_call s k n cnt st fs = Inr (drain_loop s k n cnt st fs)"
proof (induction fs arbitrary: cnt st)
  case Nil
  show ?case by simp
next
  case (Cons f fs)
  then show ?case by (simp add: drain_one_call_returns Let_def)
qed

lemma fpath_futures_of: "f \<in> set (futures_of ps) \<Longrightarrow> fpath f \<in> set ps"
proof -
  assume "f \<in> set (futures_of ps)"
  then have "fpath f \<in> set (map fpath (futures_of ps))" by simp
  then show ?thesis by (simp only: map_fpath_futures_of)
qed

lemma drain_call_returns:
  assumes ca: "completes_all s" and acc: "accounted s k ps st"
    and ret: "\<forall>p \<in> set ps. worker_returns s k p"
  shows "drain_call s k n st = Inr (drain s k n st)"
proof -
  let ?snap = "case n of None \<Rightarrow> futures st | Some b \<Rightarrow> take b (futures st)"
  from acc have fu: "futures st = drop (done_n st) (futures_of ps)" by (simp add: accounted_def)
  have dist: "distinct (futures st)" unfolding fu using distinct_futures_of [of ps] by simp
  have "mset (as_completed s ?snap) = mset ?snap" by (rule drain_effect(2) [OF ca dist])
  then have "set (as_completed s ?snap) = set ?snap" by (rule mset_eq_setD)
  moreover have "set ?snap \<subseteq> set (futures st)" by (cases n) (auto dest: in_set_takeD)
  moreover have "set (futures st) \<subseteq> set (futures_of ps)" unfolding fu by (rule set_drop_subset)
  ultimately have "\<forall>f \<in> set (as_completed s ?snap). worker_returns s k (fpath f)"
    using ret fpath_futures_of by blast
  then show ?thesis by (simp add: drain_call_def drain_def Let_def drain_loop_call_returns)
qed

lemma accounted_append_future:
  assumes "accounted s k ps st"
  shows "accounted s k (ps @ [p])
           (st\<lparr>futures := futures st @ [\<lparr>fid = submitted st, fpath = p\<rparr>],
               submitted := submitted st + 1\<rparr>)"
proof -
  from assms have sub: "submitted st = length ps" and dle: "done_n st \<le> length ps"
    by (simp_all add: accounted_def)
  have F': "futures_of (ps @ [p]) = futures_of ps @ [\<lparr>fid = submitted st, fpath = p\<rparr>]"
    by (simp add: futures_of_snoc sub)
  from assms dle show ?thesis
    by (simp add: accounted_def F' length_futures_of)
qed

lemma submit_one_call_returns:
  assumes ca: "completes_all s" and acc: "accounted s k ps st"
    and ret: "\<forall>q \<in> set (ps @ [p]). worker_returns s k q"
  shows "submit_one_call s k st p = Inr (submit_one s k st p)"
proof -
  let ?st1 = "st\<lparr>futures := futures st @ [\<lparr>fid = submitted st, fpath = p\<rparr>],
                  submitted := submitted st + 1\<rparr>"
  have acc1: "accounted s k (ps @ [p]) ?st1" by (rule accounted_append_future [OF acc])
  have "drain_call s k n ?st1 = Inr (drain s k n ?st1)" for n
    by (rule drain_call_returns [OF ca acc1 ret])
  then show ?thesis by (simp add: submit_one_call_def submit_one_def Let_def)
qed

lemma foldl_submit_one_call_returns:
  assumes ca: "completes_all s"
    and ret: "\<forall>q \<in> set (ps0 @ ps). worker_returns s k q"
  shows "foldl_call (submit_one_call s k) (foldl (submit_one s k) run0 ps0) ps
           = Inr (foldl (submit_one s k) run0 (ps0 @ ps))"
  using ret
proof (induction ps arbitrary: ps0)
  case Nil
  show ?case by simp
next
  case (Cons p ps)
  have acc: "accounted s k ps0 (foldl (submit_one s k) run0 ps0)"
    using accounted_foldl_submit_one [OF ca, of k ps0] by simp
  from Cons.prems have r1: "\<forall>q \<in> set (ps0 @ [p]). worker_returns s k q" by simp
  from Cons.prems have r2: "\<forall>q \<in> set ((ps0 @ [p]) @ ps). worker_returns s k q" by simp
  have "submit_one_call s k (foldl (submit_one s k) run0 ps0) p
          = Inr (submit_one s k (foldl (submit_one s k) run0 ps0) p)"
    by (rule submit_one_call_returns [OF ca acc r1])
  with Cons.IH [OF r2] show ?case by simp
qed

lemma foldl_call_map:
  "foldl_call (\<lambda>st x. body st (g x)) st xs = foldl_call body st (map g xs)"
  by (induction xs arbitrary: st) (simp_all split: sum.splits)

lemma foldl_submit_dir_call_returns:
  assumes ca: "completes_all s"
    and dirs: "list_all (\<lambda>entry. utf8_valid (fst entry)) w"
    and ret: "\<forall>q \<in> set (ps0 @ discovered w). worker_returns s k q"
  shows "foldl_call (submit_dir_call s k) (foldl (submit_one s k) run0 ps0) w
           = Inr (foldl (submit_one s k) run0 (ps0 @ discovered w))"
  using dirs ret
proof (induction w arbitrary: ps0)
  case Nil
  show ?case by (simp add: discovered_def)
next
  case (Cons e w)
  obtain dirpath dirnames filenames where e: "e = (dirpath, dirnames, filenames)"
    by (cases e) auto
  let ?ps1 = "ps0 @ map (join dirpath) filenames"
  have disc: "discovered (e # w) = map (join dirpath) filenames @ discovered w"
    by (simp add: discovered_def e)
  from Cons.prems(1) have v: "utf8_valid dirpath"
    and dw: "list_all (\<lambda>entry. utf8_valid (fst entry)) w" by (simp_all add: e)
  from Cons.prems(2) have r1: "\<forall>q \<in> set ?ps1. worker_returns s k q"
    and r2: "\<forall>q \<in> set (?ps1 @ discovered w). worker_returns s k q"
    by (simp_all add: disc) blast+
  have "submit_dir_call s k (foldl (submit_one s k) run0 ps0) e
          = foldl_call (submit_one_call s k) (foldl (submit_one s k) run0 ps0)
              (map (join dirpath) filenames)"
    by (simp add: submit_dir_call_def e teeprint_valid [OF v] foldl_call_map)
  also have "\<dots> = Inr (foldl (submit_one s k) run0 ?ps1)"
    by (rule foldl_submit_one_call_returns [OF ca r1])
  finally have step: "submit_dir_call s k (foldl (submit_one s k) run0 ps0) e
                        = Inr (foldl (submit_one s k) run0 ?ps1)" .
  show ?case using Cons.IH [OF dw r2] by (simp add: step disc)
qed

text \<open>When nothing raises, the call is the value.\<close>

lemma hash_all_call_returns:
  assumes ca: "completes_all s" and nr: "nothing_raises s rootdir"
  shows "hash_all_call s rootdir workers = hash_all s rootdir workers"
proof -
  let ?k = "mounts_to_skip s"
  let ?ps = "discovered (os_walk s rootdir)"
  from nr have vr: "utf8_valid rootdir" and vm: "list_all utf8_valid ?k"
    and vd: "list_all (\<lambda>entry. utf8_valid (fst entry)) (os_walk s rootdir)"
    and ret: "\<forall>q \<in> set ?ps. worker_returns s ?k q"
    by (simp_all add: nothing_raises_def list_all_iff)
  from ret have ret0: "\<forall>q \<in> set ([] @ ?ps). worker_returns s ?k q" by simp
  have sa: "submit_all_call s rootdir = Inr (submit_all s rootdir)"
    using foldl_submit_dir_call_returns [OF ca vd ret0]
    by (simp add: submit_all_call_def submit_all_eq)
  have acc: "accounted s ?k ?ps (submit_all s rootdir)"
    using accounted_foldl_submit_one [OF ca, of ?k ?ps] by (simp add: submit_all_eq)
  have dc: "drain_call s ?k None (submit_all s rootdir)
              = Inr (drain s ?k None (submit_all s rootdir))"
    by (rule drain_call_returns [OF ca acc ret])
  have t1: "teeprint [rootdir] = Inr ()" by (rule teeprint_valid [OF vr])
  have t2: "(if ?k \<noteq> [] then teeprint ?k else Inr ()) = Inr ()"
    using vm by (simp add: teeprint_def)
  show ?thesis
    unfolding hash_all_call_def hash_all_def t1 t2 by (simp add: sa dc)
qed

subsection \<open>What a run does when calls raise, and when none does\<close>

text \<open>
  The only file of the tree of \<^const>\<open>bad_name_sys\<close> has a name that is not well-formed
  UTF-8.
\<close>

lemma bad_name_discovered:
  "discovered (os_walk bad_name_sys ''/data'') = [''/data/'' @ [CHR 0xFF]]"
  by (simp add: bad_name_sys_def tree_sys_def discovered_def join_def)

text \<open>
  An exception of \<^verbatim>\<open>os.lstat\<close> other than OSError leaves \<^verbatim>\<open>hash_one\<close>.
\<close>

lemma hash_one_call_lstat_raises:
  assumes "utf8_valid p" and "\<not> path_on_skipped_mount (getcwd s) p k"
    and "os_lstat s p = Inl e" and "e \<noteq> OSError"
  shows "hash_one_call s (p, k) = Inl e"
  using assms by (simp add: hash_one_call_def teeprint_valid is_regular_file_call_def)

text \<open>
  An I/O error, on opening the file or on any read, of a file whose name the debug log
  can take stays in the worker: \<^verbatim>\<open>hash_one\<close> returns the pair of the path and
  \<^verbatim>\<open>None\<close>, and draining it counts one error and one done and writes nothing.
\<close>

lemma read_errors_contained:
  assumes io: "open_rb s path = Inl e \<or> (\<exists>f. open_rb s path = Inr f \<and> read_chunks f [] = Inl e)"
    and ret: "worker_returns s skip_mounts path"
    and fp: "fpath fut = path"
  shows "hash_one_call s (path, skip_mounts) = Inr (path, None)
         \<and> (\<exists>st'. drain_one_call s skip_mounts st fut = Inr st'
                \<and> errors st' = errors st + 1 \<and> done_n st' = done_n st + 1 \<and> out st' = out st)"
proof -
  from io have b: "blake2b_file s path = None"
    by (auto simp: blake2b_file_def blake2b_file_try_def)
  then have h: "hash_one s (path, skip_mounts) = (path, None)" by (simp add: hash_one_def)
  with ret have c: "hash_one_call s (path, skip_mounts) = Inr (path, None)"
    by (simp add: hash_one_call_returns)
  from h fp have "hash_one s (fpath fut, skip_mounts) = (fpath fut, None)" by simp
  note d = drain_one_no_digest [OF this, of st]
  from ret fp have "drain_one_call s skip_mounts st fut = Inr (drain_one s skip_mounts st fut)"
    by (simp add: drain_one_call_returns)
  with c d show ?thesis by simp
qed

text \<open>
  A run in which no call raises accounts for every task exactly once: after the final
  drain nothing is in flight; the results read are those of the submitted futures, each
  once; every worker returned the pair of its path and its digest; \<open>errors\<close> counts
  the paths without a digest, the output holds one record for each path with a digest
  and nothing else, so \<open>done - errors\<close> of the summary is the number of digests.
\<close>

lemma run_accounts_for_every_task:
  assumes "completes_all s" and "pool_size s workers \<noteq> 0" and "nothing_raises s rootdir"
  shows "\<exists>st. hash_all_call s rootdir workers = Inr st
           \<and> futures st = []
           \<and> mset (drained st) = mset (futures_of (discovered (os_walk s rootdir)))
           \<and> distinct (drained st)
           \<and> submitted st = length (discovered (os_walk s rootdir))
           \<and> done_n st = submitted st
           \<and> (\<forall>p \<in> set (discovered (os_walk s rootdir)).
                  hash_one_call s (p, mounts_to_skip s) = Inr (hash_one s (p, mounts_to_skip s)))
           \<and> errors st
               = length (filter (\<lambda>p. \<not> truthy (snd (hash_one s (p, mounts_to_skip s))))
                           (discovered (os_walk s rootdir)))
           \<and> out st = concat (map (fut_lines s (mounts_to_skip s)) (drained st))
           \<and> mset (out st)
               = mset (concat (map (path_lines s (mounts_to_skip s))
                                 (discovered (os_walk s rootdir))))
           \<and> length (out st)
               = length (filter (\<lambda>p. truthy (snd (hash_one s (p, mounts_to_skip s))))
                           (discovered (os_walk s rootdir)))
           \<and> done_n st = errors st + length (out st)"
proof -
  let ?ps = "discovered (os_walk s rootdir)"
  let ?k = "mounts_to_skip s"
  have call: "hash_all_call s rootdir workers = hash_all s rootdir workers"
    by (rule hash_all_call_returns [OF assms(1) assms(3)])
  from hash_all_accounted [OF assms(1,2), of rootdir] obtain st
    where h: "hash_all s rootdir workers = Inr st"
      and acc: "accounted s ?k ?ps st" and dn: "done_n st = length ?ps" by blast
  from hash_all_summary [OF assms(1,2), of rootdir] h
  have f: "futures st = []" and sub: "submitted st = length ?ps"
    and er: "errors st = length (filter (\<lambda>p. \<not> truthy (snd (hash_one s (p, ?k)))) ?ps)"
    and om: "mset (out st) = mset (concat (map (path_lines s ?k) ?ps))"
    by auto
  from acc dn have m: "mset (drained st) = mset (futures_of ?ps)"
    by (simp add: accounted_def length_futures_of)
  have d: "distinct (drained st)"
    using mset_eq_imp_distinct_iff [OF m] distinct_futures_of [of ?ps] by blast
  from acc have ou: "out st = concat (map (fut_lines s ?k) (drained st))"
    by (simp add: accounted_def)
  from assms(3) have ret: "\<forall>p \<in> set ?ps. worker_returns s ?k p"
    by (simp add: nothing_raises_def list_all_iff)
  then have rc: "\<forall>p \<in> set ?ps. hash_one_call s (p, ?k) = Inr (hash_one s (p, ?k))"
    by (simp add: hash_one_call_returns)
  have "length (out st) = length (concat (map (path_lines s ?k) ?ps))"
    using om by (rule mset_eq_length)
  then have ol: "length (out st) = length (filter (\<lambda>p. truthy (snd (hash_one s (p, ?k)))) ?ps)"
    by (simp only: length_concat_path_lines)
  have "length (filter (\<lambda>p. truthy (snd (hash_one s (p, ?k)))) ?ps)
          + length (filter (\<lambda>p. \<not> truthy (snd (hash_one s (p, ?k)))) ?ps) = length ?ps"
    by (rule sum_length_filter_compl)
  with dn er ol have de: "done_n st = errors st + length (out st)" by simp
  from call h f m d sub dn rc er ou om ol de show ?thesis by simp
qed

lemma scenario_nothing_raises: "nothing_raises (scenario_sys order) ''/data''"
  by (simp add: nothing_raises_def worker_returns_def scenario_sys_def scenario_tree_def
      tree_sys_def discovered_def join_def path_eval)

lemma run_accounts_for_every_task_scenario:
  "completes_all (scenario_sys (\<lambda>fs. fs)) \<and> pool_size (scenario_sys (\<lambda>fs. fs)) None \<noteq> 0
   \<and> nothing_raises (scenario_sys (\<lambda>fs. fs)) ''/data''
   \<and> (\<exists>st. hash_all_call (scenario_sys (\<lambda>fs. fs)) ''/data'' None = Inr st
           \<and> futures st = [] \<and> distinct (drained st)
           \<and> submitted st = 4 \<and> done_n st = 4 \<and> errors st = 1 \<and> length (out st) = 3)"
proof -
  let ?s = "scenario_sys (\<lambda>fs. fs)"
  let ?ps = "discovered (os_walk ?s ''/data'')"
  let ?k = "mounts_to_skip ?s"
  have c: "completes_all ?s" by (simp add: completes_all_scenario)
  have p: "pool_size ?s None \<noteq> 0" by (simp add: pool_size_scenario)
  have n: "nothing_raises ?s ''/data''" by (rule scenario_nothing_raises)
  from run_accounts_for_every_task [OF c p n] obtain st
    where h: "hash_all_call ?s ''/data'' None = Inr st"
      and f: "futures st = []" and d: "distinct (drained st)"
      and sub: "submitted st = length ?ps" and dn: "done_n st = submitted st"
      and er: "errors st = length (filter (\<lambda>p. \<not> truthy (snd (hash_one ?s (p, ?k)))) ?ps)"
      and ol: "length (out st) = length (filter (\<lambda>p. truthy (snd (hash_one ?s (p, ?k)))) ?ps)"
    by blast
  from sub have s4: "submitted st = 4" by (simp add: scenario_discovered)
  with dn have d4: "done_n st = 4" by simp
  from er have e1: "errors st = 1"
    by (simp add: scenario_discovered mounts_scenario scenario_results truthy_def
        hexdigest_blake2b_nonempty)
  from ol have o3: "length (out st) = 3"
    by (simp add: scenario_discovered mounts_scenario scenario_results truthy_def
        hexdigest_blake2b_nonempty)
  from c p n h f d s4 d4 e1 o3 show ?thesis by blast
qed

section \<open>Facts about the entropy loop\<close>

lemma entropy_loop_sum:
  assumes "0 < len" and "\<forall>c \<in> set cs. 0 < c"
  shows "entropy_loop math_log2 len ent cs
           = Inr (ent - (\<Sum>c\<leftarrow>cs. (real c / real len) * log 2 (real c / real len)))"
  using assms
proof (induction cs arbitrary: ent)
  case Nil
  show ?case by simp
next
  case (Cons c cs)
  from Cons.prems have c: "0 < c" and cs: "\<forall>c \<in> set cs. 0 < c" by simp_all
  from c Cons.prems(1) have "0 < real c / real len" by simp
  then have lg: "math_log2 (real c / real len) = Inr (log 2 (real c / real len))"
    by (simp add: math_log2_def)
  show ?case
    using Cons.prems(1) Cons.IH [OF Cons.prems(1) cs] by (simp add: lg algebra_simps)
qed

lemma count_list_positive: "x \<in> set xs \<Longrightarrow> 0 < count_list xs x"
  by (induction xs) auto

lemma counter_values_positive: "\<forall>c \<in> set (counter_values data). 0 < c"
  by (auto simp: counter_values_def count_list_positive)

lemma counter_values_sum:
  "(\<Sum>c\<leftarrow>counter_values data. g c) = (\<Sum>b \<in> set data. g (count_list data b))"
proof -
  let ?vs = "rev (remdups (rev data))"
  have d: "distinct ?vs" by simp
  have s: "set ?vs = set data" by simp
  have "(\<Sum>c\<leftarrow>counter_values data. g c) = (\<Sum>b\<leftarrow>?vs. g (count_list data b))"
    by (simp add: counter_values_def o_def)
  also have "\<dots> = (\<Sum>b \<in> set ?vs. g (count_list data b))"
    using d by (rule sum_list_distinct_conv_sum_set)
  finally show ?thesis by (simp only: s)
qed

lemma entropy_loop_shannon:
  assumes "data \<noteq> []"
  shows "entropy_loop math_log2 (length data) 0 (counter_values data) = Inr (shannon data)"
proof -
  from assms have "0 < length data" by simp
  then have "entropy_loop math_log2 (length data) 0 (counter_values data)
               = Inr (0 - (\<Sum>c\<leftarrow>counter_values data.
                             (real c / real (length data)) * log 2 (real c / real (length data))))"
    using counter_values_positive by (rule entropy_loop_sum)
  then show ?thesis by (simp add: counter_values_sum shannon_def)
qed

section \<open>MountFilter: the claims\<close>

text \<open>
  Claim C5. \<^verbatim>\<open>path_on_skipped_mount\<close> is to return true exactly when the absolute form
  of the path equals an excluded mountpoint or lies strictly inside one, the filesystem
  root included. With the root \<open>/\<close> as the excluded mountpoint the code tests
  \<^verbatim>\<open>ap.startswith("//")\<close>, so \<open>/etc/passwd\<close> is not excluded, although it lies
  strictly inside the root by the specification's reading. (On every mount list without
  a mountpoint that ends with the separator the two agree:
  \<open>path_on_skipped_mount_spec\<close>; a name prefix does not fool the test:
  \<open>not_fooled_by_name_prefix\<close>.)
\<close>

theorem path_on_skipped_mount_misses_root:
  "\<not> path_on_skipped_mount ''/'' ''/etc/passwd'' [''/'']
   \<and> is_excluded_spec (abspath ''/'' ''/etc/passwd'') [''/'']"
  by (simp add: path_eval is_excluded_spec_def strictly_inside_def)

text \<open>
  Claim C9. Exclusion is to be closed under descendants: if \<open>p\<close> is excluded, so is
  \<open>p/s\<close> for a relative suffix \<open>s\<close> without parent-directory components. With the
  root as the excluded mountpoint and the working directory \<open>/\<close>, the path \<open>.\<close> is
  excluded and \<open>./etc\<close> is not: the same miss as in C5. (For mount lists that hold
  neither \<open>/\<close> nor \<open>//\<close> the closure holds: \<open>path_on_skipped_mount_descend\<close>.)
\<close>

theorem exclusion_not_closed_under_root:
  "path_on_skipped_mount ''/'' ''.'' [''/'']
   \<and> \<not> path_on_skipped_mount ''/'' (''.'' @ ''/'' @ ''etc'') [''/'']"
  by (simp add: path_eval)

section \<open>SubmissionScheduler and ResultSink: the claims\<close>




text \<open>
  Claim C2. The claim asks that in every run of \<^verbatim>\<open>hash_all\<close> each submitted task is
  drained exactly once and none is lost, with \<open>done = submitted\<close> after the final
  drain. In the tree of \<^const>\<open>bad_name_sys\<close> the walk finds one file, whose name is the
  byte \<^verbatim>\<open>0xFF\<close>; the scan submits it, so that one future is in flight and nothing is
  done when the final drain starts; the worker raises UnicodeEncodeError on its first
  log line, \<^verbatim>\<open>fut.result()\<close> raises it again in \<^verbatim>\<open>drain\<close>, and the run ends in that
  exception: the task is submitted and never counted, and no summary is printed.
\<close>

theorem bad_name_aborts_run:
  "discovered (os_walk bad_name_sys ''/data'') = [''/data/'' @ [CHR 0xFF]]
   \<and> submit_all_call bad_name_sys ''/data''
       = Inr \<lparr>submitted = 1, done_n = 0, errors = 0,
              futures = [\<lparr>fid = 0, fpath = ''/data/'' @ [CHR 0xFF]\<rparr>],
              out = [], drained = []\<rparr>
   \<and> hash_all_call bad_name_sys ''/data'' None = Inl UnicodeEncodeError"
proof -
  let ?p = "''/data/'' @ [CHR 0xFF]"
  let ?st = "\<lparr>submitted = 1, done_n = 0, errors = 0,
              futures = [\<lparr>fid = 0, fpath = ?p\<rparr>], out = [], drained = []\<rparr>"
  have w: "os_walk bad_name_sys ''/data'' = [(''/data'', [], [[CHR 0xFF]])]"
    by (simp add: bad_name_sys_def tree_sys_def)
  have m: "mounts_to_skip bad_name_sys = [''/proc'']"
    and o: "as_completed bad_name_sys = (\<lambda>fs. fs)"
    and p: "pool_size bad_name_sys None = 4"
    by (simp_all add: bad_name_sys_def tree_sys_def pool_size_def)
  have sa: "submit_all_call bad_name_sys ''/data'' = Inr ?st"
    by (simp add: submit_all_call_def submit_dir_call_def submit_one_call_def w m run0_def
        teeprint_def join_def SUBMIT_BATCH_def)
  have h: "hash_one_call bad_name_sys (?p, [''/proc'']) = Inl UnicodeEncodeError"
    by (rule hash_one_call_invalid) simp
  have dc: "drain_call bad_name_sys [''/proc''] None ?st = Inl UnicodeEncodeError"
    using h by (simp add: drain_call_def o drain_one_call_def)
  have "hash_all_call bad_name_sys ''/data'' None = Inl UnicodeEncodeError"
    using sa dc by (simp add: hash_all_call_def m p teeprint_def)
  with bad_name_discovered sa show ?thesis by simp
qed




text \<open>
  Claim C4, as stated: the end-to-end scenario ends with 3 records and the counters
  \<open>submitted = 3\<close>, \<open>done = 3\<close>, \<open>errors = 0\<close>. The counters fail: \<^verbatim>\<open>os.walk\<close> lists
  the symbolic link among the file names, so it is submitted, skipped by the worker as
  not regular and counted as an error. With futures completing in submission order:
\<close>

theorem scenario_counters_4_4_1:
  "hash_all (scenario_sys (\<lambda>fs. fs)) ''/data'' None
     = Inr \<lparr>submitted = 4, done_n = 4, errors = 1, futures = [],
            out = [record_line (hexdigest (blake2b 64 (bytes_of ''hello''))),
                   record_line (hexdigest (blake2b 64 (bytes_of ''hello''))),
                   record_line (hexdigest (blake2b 64 (bytes_of ''world'')))],
            drained = [\<lparr>fid = 0, fpath = ''/data/a.txt''\<rparr>,
                       \<lparr>fid = 1, fpath = ''/data/b.txt''\<rparr>,
                       \<lparr>fid = 2, fpath = ''/data/link''\<rparr>,
                       \<lparr>fid = 3, fpath = ''/data/sub/c.txt''\<rparr>]\<rparr>"
  by (simp add: hash_all_def pool_size_scenario submit_all_eq scenario_discovered
      mounts_scenario submit_one_def run0_def SUBMIT_BATCH_def drain_def drain_one_def
      scenario_results truthy_def hexdigest_blake2b_nonempty as_completed_scenario)

text \<open>
  Claim C4, amended. In the scenario, whatever the order of completion, the run writes
  exactly 3 records, those of \<open>a.txt\<close>, \<open>b.txt\<close> and \<open>sub/c.txt\<close>; \<open>a.txt\<close> and \<open>b.txt\<close>
  have the same digest; \<open>link\<close> has no record; and the counters end at
  \<open>submitted = 4\<close>, \<open>done = 4\<close>, \<open>errors = 1\<close>.
\<close>

theorem scenario_outcome:
  assumes "completes_all (scenario_sys order)"
  shows "\<exists>st. hash_all (scenario_sys order) ''/data'' None = Inr st
           \<and> submitted st = 4 \<and> done_n st = 4 \<and> errors st = 1
           \<and> length (out st) = 3
           \<and> mset (out st)
               = {#record_line (hexdigest (blake2b 64 (bytes_of ''hello''))),
                   record_line (hexdigest (blake2b 64 (bytes_of ''hello''))),
                   record_line (hexdigest (blake2b 64 (bytes_of ''world'')))#}
           \<and> snd (hash_one (scenario_sys order)
                    (''/data/a.txt'', mounts_to_skip (scenario_sys order)))
               = snd (hash_one (scenario_sys order)
                        (''/data/b.txt'', mounts_to_skip (scenario_sys order)))
           \<and> path_lines (scenario_sys order) (mounts_to_skip (scenario_sys order))
                 ''/data/link'' = []"
proof -
  from assms have "\<forall>fs. distinct fs \<longrightarrow> mset (order fs) = mset fs"
    by (simp add: completes_all_scenario)
  from scenario_run [OF this] obtain st
    where h: "hash_all (scenario_sys order) ''/data'' None = Inr st"
      and c: "submitted st = 4" "done_n st = 4" "errors st = 1"
      and o: "mset (out st)
               = {#record_line (hexdigest (blake2b 64 (bytes_of ''hello''))),
                   record_line (hexdigest (blake2b 64 (bytes_of ''hello''))),
                   record_line (hexdigest (blake2b 64 (bytes_of ''world'')))#}"
    by blast
  have "size (mset (out st)) = 3" by (simp add: o)
  then have l: "length (out st) = 3" by simp
  have d: "snd (hash_one (scenario_sys order)
                  (''/data/a.txt'', mounts_to_skip (scenario_sys order)))
             = snd (hash_one (scenario_sys order)
                      (''/data/b.txt'', mounts_to_skip (scenario_sys order)))"
    by (simp add: mounts_scenario scenario_results)
  have k: "path_lines (scenario_sys order) (mounts_to_skip (scenario_sys order))
             ''/data/link'' = []"
    by (simp add: mounts_scenario scenario_lines)
  from h c l o d k show ?thesis by blast
qed

theorem scenario_outcome_witness:
  "completes_all (scenario_sys rev)
   \<and> (\<exists>st. hash_all (scenario_sys rev) ''/data'' None = Inr st
           \<and> submitted st = 4 \<and> done_n st = 4 \<and> errors st = 1 \<and> length (out st) = 3)"
proof -
  have a: "completes_all (scenario_sys rev)" by (simp add: completes_all_scenario)
  from scenario_outcome [OF a] a show ?thesis by blast
qed

text \<open>
  Claim C8. Every line that a run appends to the output file has the form
  \<open>digest\<close>, space, \<open>TRUE\<close> or \<open>FALSE\<close>, space, \<open>reason\<close>, newline, with the verdict and
  the reason that \<^verbatim>\<open>check_hash\<close> returns for the digest; the digest is 128 lower-case
  hexadecimal digits; and since \<^verbatim>\<open>check_hash\<close> is the stub that returns
  \<open>(False, DUMMY_REASON)\<close>, the line is the digest followed by \<open>FALSE DUMMY_REASON\<close>.
\<close>

theorem output_record_format:
  assumes "completes_all s" and "pool_size s workers \<noteq> 0"
  shows "\<exists>st. hash_all s rootdir workers = Inr st
           \<and> (\<forall>l \<in> set (out st). \<exists>digest boolean reason.
                  check_hash digest = (boolean, reason)
                  \<and> l = digest @ '' '' @ (if boolean then ''TRUE'' else ''FALSE'') @ '' ''
                           @ reason @ [CHR 0x0A]
                  \<and> l = digest @ '' FALSE DUMMY_REASON'' @ [CHR 0x0A]
                  \<and> length digest = 128 \<and> set digest \<subseteq> set hexdigits)"
proof -
  let ?ps = "discovered (os_walk s rootdir)"
  let ?k = "mounts_to_skip s"
  from hash_all_accounted [OF assms, of rootdir] obtain st
    where h: "hash_all s rootdir workers = Inr st" and acc: "accounted s ?k ?ps st" by blast
  from acc have ou: "out st = concat (map (fut_lines s ?k) (drained st))"
    by (simp add: accounted_def)
  have "\<exists>digest boolean reason.
          check_hash digest = (boolean, reason)
          \<and> l = digest @ '' '' @ (if boolean then ''TRUE'' else ''FALSE'') @ '' ''
                   @ reason @ [CHR 0x0A]
          \<and> l = digest @ '' FALSE DUMMY_REASON'' @ [CHR 0x0A]
          \<and> length digest = 128 \<and> set digest \<subseteq> set hexdigits"
    if "l \<in> set (out st)" for l
  proof -
    from that ou obtain f where "l \<in> set (fut_lines s ?k f)" by auto
    with fut_lines_cases [of s ?k f] obtain d
      where l: "l = record_line (hexdigest (blake2b 64 d))" by auto
    let ?d = "hexdigest (blake2b 64 d)"
    have "check_hash ?d = (False, ''DUMMY_REASON'')" by (simp add: check_hash_def)
    moreover have "l = ?d @ '' '' @ (if False then ''TRUE'' else ''FALSE'') @ '' ''
                         @ ''DUMMY_REASON'' @ [CHR 0x0A]"
      by (simp add: l record_line_stub)
    moreover have "l = ?d @ '' FALSE DUMMY_REASON'' @ [CHR 0x0A]" by (simp add: l record_line_stub)
    moreover have "length ?d = 128" by (rule length_hexdigest_blake2b)
    moreover have "set ?d \<subseteq> set hexdigits" by (rule set_hexdigest)
    ultimately show ?thesis by blast
  qed
  with h show ?thesis by blast
qed

theorem output_record_format_witness:
  "completes_all (scenario_sys (\<lambda>fs. fs)) \<and> pool_size (scenario_sys (\<lambda>fs. fs)) None \<noteq> 0
   \<and> (\<exists>st. hash_all (scenario_sys (\<lambda>fs. fs)) ''/data'' None = Inr st
           \<and> out st \<noteq> []
           \<and> (\<exists>digest. hd (out st) = digest @ '' FALSE DUMMY_REASON'' @ [CHR 0x0A]
                  \<and> length digest = 128 \<and> set digest \<subseteq> set hexdigits))"
proof -
  let ?s = "scenario_sys (\<lambda>fs. fs)"
  have c: "completes_all ?s" by (simp add: completes_all_scenario)
  have p: "pool_size ?s None \<noteq> 0" by (simp add: pool_size_scenario)
  from output_record_format [OF c p, of "''/data''"] obtain st
    where h: "hash_all ?s ''/data'' None = Inr st"
      and f: "\<forall>l \<in> set (out st). \<exists>digest boolean reason.
                  check_hash digest = (boolean, reason)
                  \<and> l = digest @ '' '' @ (if boolean then ''TRUE'' else ''FALSE'') @ '' ''
                           @ reason @ [CHR 0x0A]
                  \<and> l = digest @ '' FALSE DUMMY_REASON'' @ [CHR 0x0A]
                  \<and> length digest = 128 \<and> set digest \<subseteq> set hexdigits"
    by blast
  have a: "\<forall>fs::future list. distinct fs \<longrightarrow> mset ((\<lambda>fs. fs) fs) = mset fs" by simp
  from scenario_run [OF a] h have "mset (out st) \<noteq> {#}" by auto
  then have ne: "out st \<noteq> []" by auto
  then have "hd (out st) \<in> set (out st)" by simp
  with f obtain digest where "hd (out st) = digest @ '' FALSE DUMMY_REASON'' @ [CHR 0x0A]"
    and "length digest = 128" and "set digest \<subseteq> set hexdigits" by blast
  with c p h ne show ?thesis by blast
qed

section \<open>DigestWorker: the claims\<close>

text \<open>
  Claim C6. The claim asks that \<^verbatim>\<open>hash_one\<close> always returns a pair for the submitted
  path and that no failure of one file leaves the worker as an exception. The file of
  \<^const>\<open>bad_name_sys\<close> is a regular file that can be read and lies under no excluded
  mount, and its name is the byte \<^verbatim>\<open>0xFF\<close>: \<^verbatim>\<open>hash_one\<close> raises UnicodeEncodeError
  on its \<^verbatim>\<open>START\<close> line, which stands before every \<^verbatim>\<open>try\<close>, and returns no pair.
\<close>

theorem hash_one_raises_for_bad_name:
  "\<not> path_on_skipped_mount (getcwd bad_name_sys) (''/data/'' @ [CHR 0xFF]) [''/proc'']
   \<and> os_lstat bad_name_sys (''/data/'' @ [CHR 0xFF]) = Inr S_IFREG
   \<and> open_rb bad_name_sys (''/data/'' @ [CHR 0xFF]) = Inr [Inr (bytes_of ''x'')]
   \<and> hash_one_call bad_name_sys (''/data/'' @ [CHR 0xFF], [''/proc''])
       = Inl UnicodeEncodeError"
proof -
  have n: "\<not> path_on_skipped_mount (getcwd bad_name_sys) (''/data/'' @ [CHR 0xFF]) [''/proc'']"
    by (simp add: bad_name_sys_def tree_sys_def path_eval)
  have l: "os_lstat bad_name_sys (''/data/'' @ [CHR 0xFF]) = Inr S_IFREG"
    and o: "open_rb bad_name_sys (''/data/'' @ [CHR 0xFF]) = Inr [Inr (bytes_of ''x'')]"
    by (simp_all add: bad_name_sys_def tree_sys_def join_def)
  have "hash_one_call bad_name_sys (''/data/'' @ [CHR 0xFF], [''/proc''])
          = Inl UnicodeEncodeError"
    by (rule hash_one_call_invalid) simp
  with n l o show ?thesis by simp
qed



section \<open>entropy.py: the claim\<close>

text \<open>
  Claim C10, as stated: \<^verbatim>\<open>print_entropy\<close> never ends in an exception. It does: the
  calls of \<^verbatim>\<open>print\<close> stand in no \<^verbatim>\<open>try\<close>, so with a standard output that encodes
  strict UTF-8 and a file argument whose name is the byte \<^verbatim>\<open>0xFF\<close>, the error line for
  the file that cannot be read ends the call in UnicodeEncodeError; and with an empty
  \<^verbatim>\<open>sys.argv\<close> the usage line ends it in IndexError.
\<close>

theorem print_entropy_raises:
  "print_entropy utf8_stdout [''entropy.py'', [CHR 0xFF]] missing_file = Inl UnicodeEncodeError
   \<and> print_entropy utf8_stdout [] missing_file = Inl IndexError"
  by (simp add: print_entropy_def print_entropy_with_def py_print_def utf8_stdout_def
      missing_file_def)

text \<open>
  Claim C10, amended. When \<^verbatim>\<open>sys.argv\<close> is not empty and standard output takes the one
  line of the call (its encoder can encode the name that the line interpolates, and
  writing to it does not fail), \<^verbatim>\<open>print_entropy\<close> returns, having printed one line:
  without a file argument the usage line; when the file cannot be read the error line;
  for an empty file the empty-file line, whatever the logarithm is, so none is
  computed; and for a readable file that is not empty the Shannon entropy of the byte
  frequencies and the size.
\<close>

theorem print_entropy_returns:
  assumes "argv \<noteq> []" and "write_error sout = None"
    and "if length argv < 2 then encodes sout (basename (hd argv)) else encodes sout (argv ! 1)"
  shows "(\<exists>line. print_entropy sout argv read_file = Inr line)
         \<and> (length argv < 2
              \<longrightarrow> print_entropy sout argv read_file = Inr (Usage (basename (hd argv))))
         \<and> (\<forall>e. 2 \<le> length argv \<and> read_file (argv ! 1) = Inl e
              \<longrightarrow> print_entropy sout argv read_file = Inr (CannotRead (argv ! 1) e))
         \<and> (2 \<le> length argv \<and> read_file (argv ! 1) = Inr []
              \<longrightarrow> (\<forall>lg. print_entropy_with lg sout argv read_file
                          = Inr (EmptyFile (argv ! 1))))
         \<and> (\<forall>data. 2 \<le> length argv \<and> read_file (argv ! 1) = Inr data \<and> data \<noteq> []
              \<longrightarrow> print_entropy sout argv read_file
                    = Inr (Entropy (argv ! 1) (shannon data) (length data)))"
proof -
  from assms(1) obtain a0 rest where argv: "argv = a0 # rest" by (cases argv) auto
  show ?thesis
  proof (cases "length argv < 2")
    case True
    with assms(2,3) show ?thesis
      by (simp add: print_entropy_def print_entropy_with_def py_print_def argv)
  next
    case False
    with assms(3) have enc: "encodes sout (argv ! 1)" by simp
    show ?thesis
    proof (cases "read_file (argv ! 1)")
      case (Inl e)
      with False enc assms(2) show ?thesis
        by (simp add: print_entropy_def print_entropy_with_def py_print_def Let_def)
    next
      case (Inr data)
      show ?thesis
      proof (cases "data = []")
        case True
        with False Inr enc assms(2) show ?thesis
          by (simp add: print_entropy_def print_entropy_with_def py_print_def Let_def)
      next
        case ne: False
        with False Inr enc assms(2) show ?thesis
          by (simp add: print_entropy_def print_entropy_with_def py_print_def Let_def
              entropy_loop_shannon)
      qed
    qed
  qed
qed

theorem print_entropy_returns_witness:
  "[''entropy.py'', ''f''] \<noteq> [] \<and> write_error utf8_stdout = None
   \<and> encodes utf8_stdout ''f'' \<and> encodes utf8_stdout (basename ''entropy.py'')
   \<and> print_entropy utf8_stdout [''entropy.py'', ''f''] file_AB
       = Inr (Entropy ''f'' (shannon [0x41, 0x42]) 2)
   \<and> shannon [0x41, 0x42] = 1
   \<and> print_entropy utf8_stdout [''entropy.py''] file_AB = Inr (Usage ''entropy.py'')"
proof -
  have a: "[''entropy.py'', ''f''] \<noteq> ([]::string list)" by simp
  have b: "[''entropy.py''] \<noteq> ([]::string list)" by simp
  have w: "write_error utf8_stdout = None" by (simp add: utf8_stdout_def)
  have u: "basename ''entropy.py'' = ''entropy.py''" by (simp add: basename_def)
  have ef: "encodes utf8_stdout ''f''" by (simp add: utf8_stdout_def)
  have eu: "encodes utf8_stdout (basename ''entropy.py'')" by (simp add: utf8_stdout_def u)
  have ca: "if length [''entropy.py'', ''f''] < 2
            then encodes utf8_stdout (basename (hd [''entropy.py'', ''f'']))
            else encodes utf8_stdout ([''entropy.py'', ''f''] ! 1)"
    using ef by simp
  have cb: "if length [''entropy.py''] < 2
            then encodes utf8_stdout (basename (hd [''entropy.py'']))
            else encodes utf8_stdout ([''entropy.py''] ! 1)"
    using eu by simp
  have s: "shannon [0x41, 0x42] = 1"
    by (simp add: shannon_def log_divide)
  from print_entropy_returns [OF a w ca, of file_AB]
    print_entropy_returns [OF b w cb, of file_AB] s u w ef eu
  show ?thesis by (simp add: file_AB_def)
qed

end
